theory Spec2Isabelle
  imports Main "HOL-Library.Sublist"
begin

section \<open>Runes and strings\<close>

text \<open>
  A Go \<^verbatim>\<open>rune\<close> is a Unicode code point and a Go string is read by the scanner one rune
  at a time (\<^verbatim>\<open>bufio.Reader.ReadRune\<close>) and written back one rune at a time
  (\<^verbatim>\<open>bytes.Buffer.WriteRune\<close>). The input and every literal are therefore modelled as
  the sequence of code points that \<^verbatim>\<open>ReadRune\<close> delivers.
\<close>

type_synonym rune = nat
type_synonym gostring = "rune list"

definition runes :: "string \<Rightarrow> gostring" where
  "runes cs = map of_char cs"

text \<open>\<^verbatim>\<open>var eof = rune(0)\<close>\<close>

definition eof :: rune where
  "eof = 0"

text \<open>
  \<^verbatim>\<open>unicode.IsSpace\<close>: in Latin-1 the runes \<^verbatim>\<open>\t \n \v \f \r\<close>, space, U+0085 and U+00A0;
  beyond it the code points with the White\_Space property.
\<close>

definition IsSpace :: "rune \<Rightarrow> bool" where
  "IsSpace r \<longleftrightarrow>
     (if r \<le> 0xFF then r \<in> {0x09, 0x0A, 0x0B, 0x0C, 0x0D, 0x20, 0x85, 0xA0}
      else r = 0x1680 \<or> (0x2000 \<le> r \<and> r \<le> 0x200A) \<or> r = 0x2028 \<or> r = 0x2029
           \<or> r = 0x202F \<or> r = 0x205F \<or> r = 0x3000)"

text \<open>\<^verbatim>\<open>func isLineBreak(ch rune) bool { return ch == '\n' }\<close>\<close>

definition isLineBreak :: "rune \<Rightarrow> bool" where
  "isLineBreak ch \<longleftrightarrow> ch = 0x0A"

definition isWhitespace :: "rune \<Rightarrow> bool" where
  "isWhitespace ch \<longleftrightarrow>
     IsSpace ch \<or> ch = 0x20 \<or> ch = 0x09 \<or> ch = 0x2002 \<or> isLineBreak ch"

text \<open>
  \<^verbatim>\<open>unicode.ToUpper\<close>, as far as the keyword comparison of \<^verbatim>\<open>scanIdent\<close> can observe it:
  the upper-cased text is only trimmed of ASCII decoration and of white space and then
  compared with ASCII keywords, and the only runes whose upper case is an ASCII rune are
  the ASCII lower-case letters, U+0131 (dotless i, to I) and U+017F (long s, to S). Every
  other rune is mapped by \<^verbatim>\<open>unicode.ToUpper\<close> to a non-ASCII, non-space rune or to itself,
  and is left as it is here.
\<close>

definition ToUpper_rune :: "rune \<Rightarrow> rune" where
  "ToUpper_rune r =
     (if 0x61 \<le> r \<and> r \<le> 0x7A then r - 0x20
      else if r = 0x131 then 0x49
      else if r = 0x17F then 0x53
      else r)"

definition ToUpper :: "gostring \<Rightarrow> gostring" where
  "ToUpper s = map ToUpper_rune s"

text \<open>\<^verbatim>\<open>strings.TrimSpace\<close> and \<^verbatim>\<open>strings.Trim(s, cutset)\<close>: both ends are trimmed.\<close>

definition trim_both :: "(rune \<Rightarrow> bool) \<Rightarrow> gostring \<Rightarrow> gostring" where
  "trim_both P s = rev (dropWhile P (rev (dropWhile P s)))"

definition TrimSpace :: "gostring \<Rightarrow> gostring" where
  "TrimSpace s = trim_both IsSpace s"

definition Trim :: "gostring \<Rightarrow> gostring \<Rightarrow> gostring" where
  "Trim s cutset = trim_both (\<lambda>r. r \<in> set cutset) s"

text \<open>\<^verbatim>\<open>strings.Split(s, "\n")\<close>: one piece more than there are line breaks.\<close>

fun Split_nl :: "gostring \<Rightarrow> gostring list" where
  "Split_nl [] = [[]]"
| "Split_nl (c # cs) =
     (if c = 0x0A then [] # Split_nl cs
      else (case Split_nl cs of l # ls \<Rightarrow> (c # l) # ls | [] \<Rightarrow> [[c]]))"

text \<open>\<^verbatim>\<open>strings.Join(elems, sep)\<close>\<close>

fun Join :: "gostring list \<Rightarrow> gostring \<Rightarrow> gostring" where
  "Join [] sep = []"
| "Join [x] sep = x"
| "Join (x # y # ys) sep = x @ sep @ Join (y # ys) sep"

section \<open>Tokens (token.go)\<close>

datatype Token = EOF | WS | COLON | IDENT | TODAY | YESTERDAY | MEETINGS | BLOCKERS | LP | JIRA

definition isKeyword :: "Token \<Rightarrow> bool" where
  "isKeyword t \<longleftrightarrow>
     t = TODAY \<or> t = YESTERDAY \<or> t = MEETINGS \<or> t = BLOCKERS \<or> t = LP \<or> t = JIRA"

section \<open>The scanner\<close>

text \<open>
  \<^verbatim>\<open>bufio.Reader\<close> over an in-memory text: the runes not yet read, and the rune that
  \<^verbatim>\<open>UnreadRune\<close> would put back. \<^verbatim>\<open>UnreadRune\<close> only works directly after a successful
  \<^verbatim>\<open>ReadRune\<close>; otherwise it returns an error, which \<^verbatim>\<open>unread\<close> discards.
\<close>

record Reader =
  last_rune :: "rune option"
  remaining :: "rune list"

definition ReadRune :: "Reader \<Rightarrow> rune option \<times> Reader" where
  "ReadRune r =
     (case remaining r of
        [] \<Rightarrow> (None, r\<lparr>last_rune := None\<rparr>)
      | c # cs \<Rightarrow> (Some c, \<lparr>last_rune = Some c, remaining = cs\<rparr>))"

definition UnreadRune :: "Reader \<Rightarrow> Reader" where
  "UnreadRune r =
     (case last_rune r of
        None \<Rightarrow> r
      | Some c \<Rightarrow> \<lparr>last_rune = None, remaining = c # remaining r\<rparr>)"

type_synonym Scanner = Reader

definition NewScanner :: "gostring \<Rightarrow> Scanner" where
  "NewScanner input = \<lparr>last_rune = None, remaining = input\<rparr>"

text \<open>\<^verbatim>\<open>read\<close> returns \<^verbatim>\<open>eof\<close> when \<^verbatim>\<open>ReadRune\<close> fails, and the rune read otherwise.\<close>

definition read :: "Scanner \<Rightarrow> rune \<times> Scanner" where
  "read s = (case ReadRune s of (None, s') \<Rightarrow> (eof, s') | (Some ch, s') \<Rightarrow> (ch, s'))"

definition unread :: "Scanner \<Rightarrow> Scanner" where
  "unread s = UnreadRune s"

lemma read_shorter:
  "read s = (ch, s') \<Longrightarrow> ch \<noteq> eof \<Longrightarrow> length (remaining s') < length (remaining s)"
  by (auto simp: read_def ReadRune_def split: list.splits)

function scanWhitespace_loop :: "Scanner \<Rightarrow> gostring \<Rightarrow> Token \<times> gostring \<times> Scanner" where
  "scanWhitespace_loop s buf =
     (case read s of (ch, s1) \<Rightarrow>
        if ch = eof then (WS, buf, s1)
        else if \<not> isWhitespace ch then (WS, buf, unread s1)
        else scanWhitespace_loop s1 (buf @ [ch]))"
  by pat_completeness auto
termination
  by (relation "measure (\<lambda>(s, buf). length (remaining s))") (auto dest: read_shorter [OF sym])

definition scanWhitespace :: "Scanner \<Rightarrow> Token \<times> gostring \<times> Scanner" where
  "scanWhitespace s = (case read s of (ch, s1) \<Rightarrow> scanWhitespace_loop s1 [ch])"

function scanIdent_loop :: "Scanner \<Rightarrow> gostring \<Rightarrow> gostring \<times> Scanner" where
  "scanIdent_loop s buf =
     (case read s of (ch, s1) \<Rightarrow>
        if ch = eof then (buf, s1)
        else if isLineBreak ch then (buf, unread s1)
        else if ch = 0x3A then (buf, unread s1)
        else scanIdent_loop s1 (buf @ [ch]))"
  by pat_completeness auto
termination
  by (relation "measure (\<lambda>(s, buf). length (remaining s))") (auto dest: read_shorter [OF sym])

text \<open>The \<^verbatim>\<open>switch\<close> of \<^verbatim>\<open>scanIdent\<close> over the normalised text.\<close>

definition keyword :: "gostring \<Rightarrow> Token" where
  "keyword w =
     (if w = runes ''TODAY'' then TODAY
      else if w = runes ''YESTERDAY'' then YESTERDAY
      else if w = runes ''WEEKEND'' then YESTERDAY
      else if w = runes ''WEEK-END'' then YESTERDAY
      else if w = runes ''FRIDAY'' then YESTERDAY
      else if w = runes ''FRIDAY/WEEKEND'' then YESTERDAY
      else if w = runes ''MEETING'' then MEETINGS
      else if w = runes ''MEETINGS'' then MEETINGS
      else if w = runes ''BLOCKER'' then BLOCKERS
      else if w = runes ''BLOCKERS'' then BLOCKERS
      else if w = runes ''TIME'' then LP
      else if w = runes ''HOURS'' then LP
      else if w = runes ''LP'' then LP
      else if w = runes ''JIRA'' then JIRA
      else IDENT)"

definition scanIdent :: "Scanner \<Rightarrow> Token \<times> gostring \<times> Scanner" where
  "scanIdent s =
     (case read s of (ch, s1) \<Rightarrow>
      case scanIdent_loop s1 [ch] of (buf, s2) \<Rightarrow>
        (keyword (TrimSpace (Trim (ToUpper buf) (runes ''_*-+>''))), buf, s2))"

definition Scan :: "Scanner \<Rightarrow> Token \<times> gostring \<times> Scanner" where
  "Scan s =
     (case read s of (ch, s1) \<Rightarrow>
        if isWhitespace ch then scanWhitespace (unread s1)
        else if ch = eof then (EOF, [], s1)
        else if ch = 0x3A then (COLON, [ch], s1)
        else scanIdent (unread s1))"


section \<open>Regular expressions of \<^verbatim>\<open>isPositive\<close>\<close>

text \<open>
  The fragment of Go's \<^verbatim>\<open>regexp\<close> syntax that the two patterns of \<^verbatim>\<open>isPositive\<close> use:
  literal runes, \<^verbatim>\<open>.\<close> (any rune but a line break), \<^verbatim>\<open>\s\<close> (the class \<^verbatim>\<open>[\t\n\f\r ]\<close>),
  concatenation, alternation, \<^verbatim>\<open>*\<close> and \<^verbatim>\<open>+\<close>. \<^verbatim>\<open>Fail\<close> and \<^verbatim>\<open>Empty\<close> only arise as
  derivatives.
\<close>

datatype regex =
    Fail
  | Empty
  | Lit rune
  | Dot
  | PerlSpace
  | Cat regex regex
  | Alt regex regex
  | Star regex
  | Plus regex

fun nullable :: "regex \<Rightarrow> bool" where
  "nullable Fail = False"
| "nullable Empty = True"
| "nullable (Lit c) = False"
| "nullable Dot = False"
| "nullable PerlSpace = False"
| "nullable (Cat r1 r2) = (nullable r1 \<and> nullable r2)"
| "nullable (Alt r1 r2) = (nullable r1 \<or> nullable r2)"
| "nullable (Star r) = True"
| "nullable (Plus r) = nullable r"

fun deriv :: "rune \<Rightarrow> regex \<Rightarrow> regex" where
  "deriv c Fail = Fail"
| "deriv c Empty = Fail"
| "deriv c (Lit d) = (if c = d then Empty else Fail)"
| "deriv c Dot = (if c = 0x0A then Fail else Empty)"
| "deriv c PerlSpace = (if c \<in> {0x09, 0x0A, 0x0C, 0x0D, 0x20} then Empty else Fail)"
| "deriv c (Cat r1 r2) =
     (if nullable r1 then Alt (Cat (deriv c r1) r2) (deriv c r2) else Cat (deriv c r1) r2)"
| "deriv c (Alt r1 r2) = Alt (deriv c r1) (deriv c r2)"
| "deriv c (Star r) = Cat (deriv c r) (Star r)"
| "deriv c (Plus r) = Cat (deriv c r) (Star r)"

text \<open>The whole text matches the expression.\<close>

fun matches :: "regex \<Rightarrow> gostring \<Rightarrow> bool" where
  "matches r [] = nullable r"
| "matches r (c # cs) = matches (deriv c r) cs"

text \<open>
  \<^verbatim>\<open>Regexp.Match\<close> is not anchored: it reports whether some part of the text matches.
\<close>

definition Match :: "regex \<Rightarrow> gostring \<Rightarrow> bool" where
  "Match re b = list_ex (\<lambda>t. list_ex (matches re) (prefixes t)) (suffixes b)"

text \<open>A literal word of a pattern, and an alternation of several branches.\<close>

fun word :: "gostring \<Rightarrow> regex" where
  "word [] = Empty"
| "word [c] = Lit c"
| "word (c # cs) = Cat (Lit c) (word cs)"

fun alts :: "regex list \<Rightarrow> regex" where
  "alts [] = Fail"
| "alts [r] = r"
| "alts (r # rs) = Alt r (alts rs)"

text \<open>\<^verbatim>\<open>.*(no|off|updating|negative).*\<close>\<close>

definition negative :: regex where
  "negative =
     Cat (Star Dot)
       (Cat (alts [word (runes ''no''), word (runes ''off''), word (runes ''updating''),
                   word (runes ''negative'')])
            (Star Dot))"

text \<open>\<^verbatim>\<open>.*(done|yes|up\s+to\s+date|ok|1|affirmative|current|updated)\<close>\<close>

definition positive :: regex where
  "positive =
     Cat (Star Dot)
       (alts [word (runes ''done''), word (runes ''yes''),
              Cat (word (runes ''up''))
                (Cat (Plus PerlSpace)
                   (Cat (word (runes ''to'')) (Cat (Plus PerlSpace) (word (runes ''date''))))),
              word (runes ''ok''), word (runes ''1''), word (runes ''affirmative''),
              word (runes ''current''), word (runes ''updated'')])"

section \<open>The parser (parser.go)\<close>

record StringField =
  Key :: gostring
  Val :: gostring
  Valid :: bool

record BoolField =
  Key_b :: gostring
  Val_b :: bool
  Lit_b :: gostring
  Valid_b :: bool

record Statement =
  Yesterday :: StringField
  Today :: StringField
  Meetings :: StringField
  Blockers :: StringField
  LP_fld :: BoolField
  Jira :: BoolField

text \<open>The zero values of the three structs, as \<^verbatim>\<open>&Statement{}\<close> creates them.\<close>

definition StringField_zero :: StringField where
  "StringField_zero = \<lparr>Key = [], Val = [], Valid = False\<rparr>"

definition BoolField_zero :: BoolField where
  "BoolField_zero = \<lparr>Key_b = [], Val_b = False, Lit_b = [], Valid_b = False\<rparr>"

definition Statement_zero :: Statement where
  "Statement_zero =
     \<lparr>Yesterday = StringField_zero, Today = StringField_zero, Meetings = StringField_zero,
      Blockers = StringField_zero, LP_fld = BoolField_zero, Jira = BoolField_zero\<rparr>"

text \<open>An error made by \<^verbatim>\<open>errors.New\<close>.\<close>

datatype error = errors_New string

definition isPositive :: "gostring \<Rightarrow> bool \<times> error option" where
  "isPositive str =
     (let n = Match negative str;
          p = Match positive str
      in if p \<and> n then (True, Some (errors_New ''ambiguous''))
         else if \<not> p \<and> \<not> n then (True, Some (errors_New ''unclear''))
         else (p \<and> \<not> n, None))"

definition splitAndTrimSpace :: "gostring list \<Rightarrow> gostring" where
  "splitAndTrimSpace values =
     (let val = TrimSpace (Join values []);
          lines = Split_nl val
      in Join (map TrimSpace lines) [0x0A])"

text \<open>
  The parser: its scanner and the one-token buffer \<^verbatim>\<open>buf\<close> (\<^verbatim>\<open>tok\<close>, \<^verbatim>\<open>lit\<close>, \<^verbatim>\<open>n\<close>).
\<close>

record Parser =
  scanner :: Scanner
  buf_tok :: Token
  buf_lit :: gostring
  buf_n :: nat

definition New :: "gostring \<Rightarrow> Parser" where
  "New input = \<lparr>scanner = NewScanner input, buf_tok = EOF, buf_lit = [], buf_n = 0\<rparr>"

definition scan :: "Parser \<Rightarrow> Token \<times> gostring \<times> Parser" where
  "scan p =
     (if buf_n p \<noteq> 0 then (buf_tok p, buf_lit p, p\<lparr>buf_n := 0\<rparr>)
      else (case Scan (scanner p) of (tok, lit, s') \<Rightarrow>
              (tok, lit, p\<lparr>scanner := s', buf_tok := tok, buf_lit := lit\<rparr>)))"

text \<open>The result is \<^verbatim>\<open>(tok, lit, ws)\<close> and the parser after the call.\<close>

definition scanIgnoreWhitespace :: "Parser \<Rightarrow> Token \<times> gostring \<times> gostring \<times> Parser" where
  "scanIgnoreWhitespace p =
     (case scan p of (tok, lit, p1) \<Rightarrow>
        if tok = WS then (case scan p1 of (tok2, lit2, p2) \<Rightarrow> (tok2, lit2, lit, p2))
        else (tok, lit, [], p1))"

definition unscan :: "Parser \<Rightarrow> Parser" where
  "unscan p = p\<lparr>buf_n := 1\<rparr>"

section \<open>What one call of \<^verbatim>\<open>Scan\<close> consumes\<close>

declare scanWhitespace_loop.simps [simp del] scanIdent_loop.simps [simp del]

lemma isWhitespace_eof [simp]: "\<not> isWhitespace eof"
  by (simp add: isWhitespace_def IsSpace_def isLineBreak_def eof_def)

lemma read_cases:
  "read s = (ch, s1) \<Longrightarrow>
     (remaining s = [] \<and> ch = eof \<and> remaining s1 = []) \<or> remaining s = ch # remaining s1"
  by (auto simp: read_def ReadRune_def split: list.splits)

lemma read_unread:
  "read s = (ch, s1) \<Longrightarrow> ch \<noteq> eof \<Longrightarrow> unread s1 = \<lparr>last_rune = None, remaining = remaining s\<rparr>"
  by (auto simp: read_def ReadRune_def unread_def UnreadRune_def split: list.splits)

lemma scanIdent_loop_split:
  "scanIdent_loop s buf = (buf', s') \<Longrightarrow> eof \<notin> set buf \<Longrightarrow>
     eof \<notin> set buf' \<and> length buf \<le> length buf' \<and>
     (buf @ remaining s = buf' @ remaining s' \<or> buf @ remaining s = buf' @ eof # remaining s')"
proof (induction s buf arbitrary: buf' s' rule: scanIdent_loop.induct)
  case (1 s buf)
  obtain ch s1 where r: "read s = (ch, s1)" by (cases "read s")
  note rc = read_cases [OF r]
  show ?case
  proof (cases "ch = eof \<or> isLineBreak ch \<or> ch = 0x3A")
    case True
    with r "1.prems" rc show ?thesis
      by (auto simp: scanIdent_loop.simps [of s buf] read_unread split: if_splits)
  next
    case False
    with r "1.prems" have "scanIdent_loop s1 (buf @ [ch]) = (buf', s')"
      by (simp add: scanIdent_loop.simps [of s buf])
    moreover have "eof \<notin> set (buf @ [ch])" using False "1.prems" by auto
    ultimately have "eof \<notin> set buf' \<and> length (buf @ [ch]) \<le> length buf' \<and>
     ((buf @ [ch]) @ remaining s1 = buf' @ remaining s' \<or> (buf @ [ch]) @ remaining s1 = buf' @ eof # remaining s')"
      using "1.IH" [OF r [symmetric]] False by blast
    with rc False show ?thesis by auto
  qed
qed

lemma scanWhitespace_loop_split:
  "scanWhitespace_loop s buf = (tok, buf', s') \<Longrightarrow> eof \<notin> set buf \<Longrightarrow>
     tok = WS \<and> eof \<notin> set buf' \<and> length buf \<le> length buf' \<and>
     (buf @ remaining s = buf' @ remaining s' \<or> buf @ remaining s = buf' @ eof # remaining s')"
proof (induction s buf arbitrary: buf' s' rule: scanWhitespace_loop.induct)
  case (1 s buf)
  obtain ch s1 where r: "read s = (ch, s1)" by (cases "read s")
  note rc = read_cases [OF r]
  show ?case
  proof (cases "ch = eof \<or> \<not> isWhitespace ch")
    case True
    with r "1.prems" rc show ?thesis
      by (auto simp: scanWhitespace_loop.simps [of s buf] read_unread split: if_splits)
  next
    case False
    with r "1.prems" have "scanWhitespace_loop s1 (buf @ [ch]) = (tok, buf', s')"
      by (simp add: scanWhitespace_loop.simps [of s buf])
    moreover have "eof \<notin> set (buf @ [ch])" using False "1.prems" by auto
    ultimately have "tok = WS \<and> eof \<notin> set buf' \<and> length (buf @ [ch]) \<le> length buf' \<and>
     ((buf @ [ch]) @ remaining s1 = buf' @ remaining s' \<or> (buf @ [ch]) @ remaining s1 = buf' @ eof # remaining s')"
      using "1.IH" [OF r [symmetric]] False by blast
    with rc False show ?thesis by auto
  qed
qed

lemma keyword_kind: "keyword w = IDENT \<or> isKeyword (keyword w)"
  by (simp add: keyword_def isKeyword_def)

lemma keyword_not_EOF [simp]: "keyword w \<noteq> EOF"
  using keyword_kind [of w] by (auto simp: isKeyword_def)

lemma Scan_split:
  assumes "Scan s = (tok, lit, s')"
  shows "eof \<notin> set lit \<and>
         (remaining s = lit @ remaining s' \<or> remaining s = lit @ eof # remaining s') \<and>
         (tok = EOF \<longleftrightarrow> lit = []) \<and>
         (tok = EOF \<longleftrightarrow> (remaining s = [] \<or> (\<exists>cs. remaining s = eof # cs)))"
proof -
  obtain ch s1 where r: "read s = (ch, s1)" by (cases "read s")
  note rc = read_cases [OF r]
  show ?thesis
  proof (cases "ch = eof")
    case True
    with r assms rc show ?thesis by (auto simp: Scan_def)
  next
    case False
    let ?u = "\<lparr>last_rune = None, remaining = remaining s\<rparr>"
    have u: "unread s1 = ?u" using r False by (rule read_unread)
    have rs: "remaining s = ch # remaining s1" using rc False by auto
    obtain s2 where r2: "read ?u = (ch, s2)" and rs2: "remaining s2 = remaining s1"
      using rs by (auto simp: read_def ReadRune_def)
    show ?thesis
    proof (cases "isWhitespace ch")
      case True
      with r assms u r2 have "scanWhitespace_loop s2 [ch] = (tok, lit, s')"
        by (simp add: Scan_def scanWhitespace_def)
      from scanWhitespace_loop_split [OF this] False rs rs2 show ?thesis
        by auto
    next
      case nws: False
      show ?thesis
      proof (cases "ch = 0x3A")
        case True
        with r assms nws False rs show ?thesis by (auto simp: Scan_def eof_def)
      next
        case ncol: False
        obtain buf s3 where l: "scanIdent_loop s2 [ch] = (buf, s3)"
          by (cases "scanIdent_loop s2 [ch]")
        with r assms u r2 nws False ncol
        have e: "lit = buf" "s' = s3" "tok \<noteq> EOF"
          by (auto simp: Scan_def scanIdent_def)
        from scanIdent_loop_split [OF l] False rs rs2 e show ?thesis by auto
      qed
    qed
  qed
qed

lemma Scan_le: "Scan s = (tok, lit, s') \<Longrightarrow> length (remaining s') \<le> length (remaining s)"
  using Scan_split [of s tok lit s'] by auto

lemma Scan_shorter:
  "Scan s = (tok, lit, s') \<Longrightarrow> tok \<noteq> EOF \<Longrightarrow> length (remaining s') < length (remaining s)"
  using Scan_split [of s tok lit s'] by (cases lit) auto

section \<open>The loop of \<^verbatim>\<open>Parse\<close>\<close>

text \<open>
  The token stream of a scanner: \<^verbatim>\<open>Scan\<close> called until it returns the end-of-input token.
\<close>

function tokenize :: "Scanner \<Rightarrow> (Token \<times> gostring) list" where
  "tokenize s =
     (case Scan s of (tok, lit, s') \<Rightarrow> if tok = EOF then [] else (tok, lit) # tokenize s')"
  by pat_completeness auto
termination
  by (relation "measure (\<lambda>s. length (remaining s))") (auto dest: Scan_shorter [OF sym])

declare tokenize.simps [simp del]

text \<open>
  The tokens that a parser will still see: the pushed-back token, when there is one, and
  then the tokens of its scanner. Nothing follows an end-of-input token.
\<close>

definition pending :: "Parser \<Rightarrow> (Token \<times> gostring) list" where
  "pending p =
     (if buf_n p \<noteq> 0
      then (if buf_tok p = EOF then [] else (buf_tok p, buf_lit p) # tokenize (scanner p))
      else tokenize (scanner p))"

lemma scan_pending:
  assumes "scan p = (tok, lit, p1)"
  shows "buf_n p1 = 0 \<and> buf_tok p1 = tok \<and> buf_lit p1 = lit \<and>
         pending p = (if tok = EOF then [] else (tok, lit) # pending p1)"
proof (cases "buf_n p = 0")
  case True
  obtain s' where S: "Scan (scanner p) = (tok, lit, s')"
    and p1: "p1 = p\<lparr>scanner := s', buf_tok := tok, buf_lit := lit\<rparr>"
    using assms True by (auto simp: scan_def split: prod.splits)
  show ?thesis using True S p1
    by (simp add: pending_def tokenize.simps [of "scanner p"])
next
  case False
  with assms show ?thesis by (auto simp: scan_def pending_def)
qed

lemma pending_unscan:
  "buf_n p = 0 \<Longrightarrow>
   pending (unscan p) = (if buf_tok p = EOF then [] else (buf_tok p, buf_lit p) # pending p)"
  by (simp add: pending_def unscan_def)

lemma scanIgnoreWhitespace_pending:
  assumes "scanIgnoreWhitespace p = (tok, lit, ws, p1)"
  shows "buf_n p1 = 0 \<and> buf_tok p1 = tok \<and> buf_lit p1 = lit \<and>
         (pending p = pending (unscan p1) \<or> pending p = (WS, ws) # pending (unscan p1))"
proof -
  obtain t l q where s1: "scan p = (t, l, q)" by (cases "scan p")
  note f1 = scan_pending [OF s1]
  show ?thesis
  proof (cases "t = WS")
    case True
    obtain t2 l2 q2 where s2: "scan q = (t2, l2, q2)" by (cases "scan q")
    note f2 = scan_pending [OF s2]
    from assms s1 s2 True have "tok = t2" "lit = l2" "ws = l" "p1 = q2"
      by (simp_all add: scanIgnoreWhitespace_def)
    with f1 f2 True show ?thesis by (simp add: pending_unscan)
  next
    case False
    from assms s1 False have "tok = t" "lit = l" "p1 = q"
      by (simp_all add: scanIgnoreWhitespace_def)
    with f1 show ?thesis by (simp add: pending_unscan)
  qed
qed

lemma scanIgnoreWhitespace_consumes:
  assumes "scanIgnoreWhitespace p = (tok, lit, ws, p1)" and "tok \<noteq> EOF"
  shows "length (pending p1) < length (pending p)"
  using scanIgnoreWhitespace_pending [OF assms(1)] assms(2)
  by (auto simp: pending_unscan)

text \<open>
  The inner loop of \<^verbatim>\<open>Parse\<close>: it collects the pieces of a value up to the next keyword or
  the end of the input, and pushes that token back.
\<close>

function collect_values :: "Parser \<Rightarrow> gostring list \<Rightarrow> gostring list \<times> Parser" where
  "collect_values p values =
     (case scanIgnoreWhitespace p of (tok, lit, ws, p1) \<Rightarrow>
        if isKeyword tok \<or> tok = EOF then (values, unscan p1)
        else if tok = IDENT \<or> tok = COLON then collect_values p1 (values @ [ws, lit])
        else collect_values p1 values)"
  by pat_completeness auto
termination
  by (relation "measure (\<lambda>(p, values). length (pending p))")
     (auto dest: scanIgnoreWhitespace_consumes [OF sym])

declare collect_values.simps [simp del]

text \<open>
  One round of the outer loop of \<^verbatim>\<open>Parse\<close> up to its \<^verbatim>\<open>switch\<close>: the keyword of the
  group, its label and the pieces of its value; \<^verbatim>\<open>None\<close> is the \<^verbatim>\<open>break\<close> at the end of the
  input.
\<close>

definition parse_group :: "Parser \<Rightarrow> (Token \<times> gostring \<times> gostring list \<times> Parser) option" where
  "parse_group p =
     (case scanIgnoreWhitespace p of (key, keyLit, _, p1) \<Rightarrow>
        if key = EOF then None
        else
          (case (if \<not> isKeyword key then (TODAY, [], unscan p1) else (key, keyLit, p1)) of
             (key, keyLit, p2) \<Rightarrow>
               (case scanIgnoreWhitespace p2 of (col, _, _, p3) \<Rightarrow>
                  (case collect_values (if col \<noteq> COLON then unscan p3 else p3) [] of
                     (values, p4) \<Rightarrow> Some (key, keyLit, values, p4)))))"

text \<open>The \<^verbatim>\<open>switch key\<close> of \<^verbatim>\<open>Parse\<close>.\<close>

definition assign :: "Token \<Rightarrow> gostring \<Rightarrow> gostring list \<Rightarrow> Statement \<Rightarrow> Statement" where
  "assign key keyLit values stmt =
     (case key of
        TODAY \<Rightarrow>
          (let val = splitAndTrimSpace values
           in stmt\<lparr>Today := \<lparr>Key = keyLit, Val = val, Valid = (val \<noteq> [])\<rparr>\<rparr>)
      | YESTERDAY \<Rightarrow>
          (let val = splitAndTrimSpace values
           in stmt\<lparr>Yesterday := \<lparr>Key = keyLit, Val = val, Valid = (val \<noteq> [])\<rparr>\<rparr>)
      | MEETINGS \<Rightarrow>
          (let val = splitAndTrimSpace values
           in stmt\<lparr>Meetings := \<lparr>Key = keyLit, Val = val, Valid = (val \<noteq> [])\<rparr>\<rparr>)
      | BLOCKERS \<Rightarrow>
          (let val = splitAndTrimSpace values
           in stmt\<lparr>Blockers := \<lparr>Key = keyLit, Val = val, Valid = (val \<noteq> [])\<rparr>\<rparr>)
      | LP \<Rightarrow>
          (let lit = splitAndTrimSpace values
           in case isPositive lit of (val, err) \<Rightarrow>
                stmt\<lparr>LP_fld := \<lparr>Key_b = keyLit, Val_b = val, Lit_b = lit, Valid_b = (err = None)\<rparr>\<rparr>)
      | JIRA \<Rightarrow>
          (let lit = splitAndTrimSpace values
           in case isPositive lit of (val, err) \<Rightarrow>
                stmt\<lparr>Jira := \<lparr>Key_b = keyLit, Val_b = val, Lit_b = lit, Valid_b = (err = None)\<rparr>\<rparr>)
      | _ \<Rightarrow> stmt)"

lemma collect_values_pending:
  "collect_values p vs = (vs', p') \<Longrightarrow>
     suffix (pending p') (pending p) \<and>
     (pending p' = [] \<or> isKeyword (fst (hd (pending p')))) \<and>
     buf_n p' = 1 \<and> (isKeyword (buf_tok p') \<or> buf_tok p' = EOF)"
proof (induction "length (pending p)" arbitrary: p vs rule: less_induct)
  case less
  obtain tok lit ws p1 where s: "scanIgnoreWhitespace p = (tok, lit, ws, p1)"
    by (cases "scanIgnoreWhitespace p")
  note f = scanIgnoreWhitespace_pending [OF s]
  show ?case
  proof (cases "isKeyword tok \<or> tok = EOF")
    case True
    with s less.prems have "p' = unscan p1" by (simp add: collect_values.simps [of p vs])
    moreover have "buf_n (unscan p1) = 1" "buf_tok (unscan p1) = buf_tok p1"
      by (simp_all add: unscan_def)
    ultimately show ?thesis using f True
      by (auto simp: pending_unscan suffix_Cons)
  next
    case False
    then obtain vs1 where c: "collect_values p1 vs1 = (vs', p')"
      using s less.prems by (auto simp: collect_values.simps [of p vs] split: if_splits)
    have "tok \<noteq> EOF" using False by simp
    with s have "length (pending p1) < length (pending p)"
      by (rule scanIgnoreWhitespace_consumes)
    from less.hyps [OF this c]
    have IH: "suffix (pending p') (pending p1) \<and>
     (pending p' = [] \<or> isKeyword (fst (hd (pending p')))) \<and>
     buf_n p' = 1 \<and> (isKeyword (buf_tok p') \<or> buf_tok p' = EOF)" .
    have "pending (unscan p1) = (tok, lit) # pending p1"
      using f \<open>tok \<noteq> EOF\<close> by (simp add: pending_unscan)
    with f have "suffix (pending p1) (pending p)"
      by (auto simp: suffix_Cons)
    with IH have "suffix (pending p') (pending p)"
      using suffix_order.trans by blast
    with IH show ?thesis by simp
  qed
qed

lemma suffix_neq_shorter: "suffix xs ys \<Longrightarrow> xs \<noteq> ys \<Longrightarrow> length xs < length ys"
  by (auto simp: suffix_def)

lemma parse_group_pending:
  assumes "parse_group p = Some (key, keyLit, vs, p')"
  shows "suffix (pending p') (pending p)"
    and "length (pending p') < length (pending p)"
    and "isKeyword key"
    and "(key, keyLit) \<in> set (pending p) \<or> (key = TODAY \<and> keyLit = [])"
proof -
  obtain key0 keyLit0 ws0 p1 where s1: "scanIgnoreWhitespace p = (key0, keyLit0, ws0, p1)"
    by (cases "scanIgnoreWhitespace p")
  note f1 = scanIgnoreWhitespace_pending [OF s1]
  have ne: "key0 \<noteq> EOF" using assms s1 by (auto simp: parse_group_def)
  have u1: "pending (unscan p1) = (key0, keyLit0) # pending p1"
    using f1 ne by (simp add: pending_unscan)
  have p_cases: "pending p = (key0, keyLit0) # pending p1 \<or>
      pending p = (WS, ws0) # (key0, keyLit0) # pending p1"
    using f1 u1 by auto
  define p2 where "p2 = (if \<not> isKeyword key0 then unscan p1 else p1)"
  obtain col cl cw p3 where s2: "scanIgnoreWhitespace p2 = (col, cl, cw, p3)"
    by (cases "scanIgnoreWhitespace p2")
  note f2 = scanIgnoreWhitespace_pending [OF s2]
  define p4 where "p4 = (if col \<noteq> COLON then unscan p3 else p3)"
  have c: "collect_values p4 [] = (vs, p')"
    using assms s1 s2 ne
    by (cases "isKeyword key0"; cases "col = COLON")
       (auto simp: parse_group_def p2_def p4_def split: prod.splits)
  have k: "(isKeyword key0 \<and> key = key0 \<and> keyLit = keyLit0) \<or>
           (\<not> isKeyword key0 \<and> key = TODAY \<and> keyLit = [])"
    using assms s1 s2 ne
    by (cases "isKeyword key0"; cases "col = COLON")
       (auto simp: parse_group_def p2_def p4_def split: prod.splits)
  note f3 = collect_values_pending [OF c]
  have "suffix (pending p4) (pending (unscan p3))"
    using f2 by (auto simp: p4_def pending_unscan suffix_Cons)
  moreover have "suffix (pending (unscan p3)) (pending p2)"
    using f2 by (auto simp: suffix_Cons)
  ultimately have "suffix (pending p4) (pending p2)"
    by (rule suffix_order.trans)
  moreover have "suffix (pending p') (pending p4)" using f3 by simp
  ultimately have s42: "suffix (pending p') (pending p2)"
    by (rule suffix_order.trans [rotated])
  have lt2: "length (pending p') < length (pending p) \<and> suffix (pending p2) (pending p)"
  proof (cases "isKeyword key0")
    case True
    then have "p2 = p1" by (simp add: p2_def)
    with s42 have "length (pending p') \<le> length (pending p1)" "suffix (pending p1) (pending p)"
      using p_cases by (auto dest: suffix_length_le simp: suffix_Cons)
    moreover have "length (pending p1) < length (pending p)" using p_cases by auto
    ultimately show ?thesis using \<open>p2 = p1\<close> by simp
  next
    case False
    then have p2: "pending p2 = (key0, keyLit0) # pending p1"
      using u1 by (simp add: p2_def)
    with f3 False have "pending p' \<noteq> pending p2" by auto
    with s42 have "length (pending p') < length (pending p2)" by (rule suffix_neq_shorter)
    moreover have s2p: "suffix (pending p2) (pending p)"
      using p_cases p2 by (auto simp: suffix_Cons)
    moreover have "length (pending p2) \<le> length (pending p)" using s2p by (rule suffix_length_le)
    ultimately show ?thesis by simp
  qed
  then show "length (pending p') < length (pending p)" by simp
  from lt2 s42 show "suffix (pending p') (pending p)"
    using suffix_order.trans by blast
  from k show "isKeyword key" by (auto simp: isKeyword_def)
  from k p_cases show "(key, keyLit) \<in> set (pending p) \<or> (key = TODAY \<and> keyLit = [])"
    by auto
qed

text \<open>The outer loop of \<^verbatim>\<open>Parse\<close>.\<close>

function Parse_loop :: "Parser \<Rightarrow> Statement \<Rightarrow> Statement" where
  "Parse_loop p stmt =
     (case parse_group p of
        None \<Rightarrow> stmt
      | Some (key, keyLit, vs, p') \<Rightarrow> Parse_loop p' (assign key keyLit vs stmt))"
  by pat_completeness auto
termination
proof (relation "measure (\<lambda>(p, stmt). length (pending p))")
  show "wf (measure (\<lambda>(p, stmt). length (pending p)))" by simp
next
  fix p stmt x2 key y keyLit ya vs p'
  assume "parse_group p = Some x2" "(key, y) = x2" "(keyLit, ya) = y" "(vs, p') = ya"
  then have "parse_group p = Some (key, keyLit, vs, p')" by simp
  then have "length (pending p') < length (pending p)" by (rule parse_group_pending)
  then show "((p', assign key keyLit vs stmt), (p, stmt))
      \<in> measure (\<lambda>(p, stmt). length (pending p))"
    by simp
qed

declare Parse_loop.simps [simp del]

text \<open>\<^verbatim>\<open>Parse\<close> returns the pointer to the statement and the error.\<close>

definition Parse :: "Parser \<Rightarrow> Statement option \<times> error option" where
  "Parse p = (Some (Parse_loop p Statement_zero), None)"

text \<open>
  The groups that the rounds of the outer loop work on, in order: the keyword of each, its
  label and the pieces of its value.
\<close>

function groups :: "Parser \<Rightarrow> (Token \<times> gostring \<times> gostring list) list" where
  "groups p =
     (case parse_group p of
        None \<Rightarrow> []
      | Some (key, keyLit, vs, p') \<Rightarrow> (key, keyLit, vs) # groups p')"
  by pat_completeness auto
termination
proof (relation "measure (\<lambda>p. length (pending p))")
  show "wf (measure (\<lambda>p. length (pending p)))" by simp
next
  fix p x2 key y keyLit ya vs p'
  assume "parse_group p = Some x2" "(key, y) = x2" "(keyLit, ya) = y" "(vs, p') = ya"
  then have "parse_group p = Some (key, keyLit, vs, p')" by simp
  then have "length (pending p') < length (pending p)" by (rule parse_group_pending)
  then show "(p', p) \<in> measure (\<lambda>p. length (pending p))"
    by simp
qed

declare groups.simps [simp del]

section \<open>The groups of a parse\<close>

text \<open>The \<^verbatim>\<open>switch\<close> applied to a list of groups in order, as the rounds of the loop do.\<close>

definition assign_all :: "Statement \<Rightarrow> (Token \<times> gostring \<times> gostring list) list \<Rightarrow> Statement" where
  "assign_all stmt gs = foldl (\<lambda>stmt (key, keyLit, vs). assign key keyLit vs stmt) stmt gs"

lemma assign_all_Nil [simp]: "assign_all stmt [] = stmt"
  by (simp add: assign_all_def)

lemma assign_all_Cons [simp]:
  "assign_all stmt ((key, keyLit, vs) # gs) = assign_all (assign key keyLit vs stmt) gs"
  by (simp add: assign_all_def)

lemma assign_all_append [simp]:
  "assign_all stmt (gs1 @ gs2) = assign_all (assign_all stmt gs1) gs2"
  by (simp add: assign_all_def)

lemma Parse_loop_groups: "Parse_loop p stmt = assign_all stmt (groups p)"
proof (induction "length (pending p)" arbitrary: p stmt rule: less_induct)
  case less
  show ?case
  proof (cases "parse_group p")
    case None
    then show ?thesis by (simp add: Parse_loop.simps [of p stmt] groups.simps [of p])
  next
    case (Some g)
    obtain key keyLit vs p' where "g = (key, keyLit, vs, p')" by (cases g)
    with Some have pg: "parse_group p = Some (key, keyLit, vs, p')" by simp
    then have "length (pending p') < length (pending p)" by (rule parse_group_pending)
    then have "Parse_loop p' (assign key keyLit vs stmt) =
        assign_all (assign key keyLit vs stmt) (groups p')"
      by (rule less.hyps)
    with pg show ?thesis by (simp add: Parse_loop.simps [of p stmt] groups.simps [of p])
  qed
qed

lemma pending_New: "pending (New input) = tokenize (NewScanner input)"
  by (simp add: pending_def New_def)

lemma tokenize_length: "length (tokenize s) \<le> length (remaining s)"
proof (induction "length (remaining s)" arbitrary: s rule: less_induct)
  case less
  obtain tok lit s' where S: "Scan s = (tok, lit, s')" by (cases "Scan s")
  show ?case
  proof (cases "tok = EOF")
    case True
    with S show ?thesis by (simp add: tokenize.simps [of s])
  next
    case False
    with S have lt: "length (remaining s') < length (remaining s)" by (rule Scan_shorter)
    then have "length (tokenize s') \<le> length (remaining s')" by (rule less.hyps)
    with lt False S show ?thesis by (simp add: tokenize.simps [of s])
  qed
qed

lemma groups_length: "length (groups p) \<le> length (pending p)"
proof (induction "length (pending p)" arbitrary: p rule: less_induct)
  case less
  show ?case
  proof (cases "parse_group p")
    case None
    then show ?thesis by (simp add: groups.simps [of p])
  next
    case (Some g)
    obtain key keyLit vs p' where "g = (key, keyLit, vs, p')" by (cases g)
    with Some have pg: "parse_group p = Some (key, keyLit, vs, p')" by simp
    then have lt: "length (pending p') < length (pending p)" by (rule parse_group_pending)
    then have "length (groups p') \<le> length (pending p')" by (rule less.hyps)
    with pg lt show ?thesis by (simp add: groups.simps [of p])
  qed
qed

lemma groups_keys:
  "(k, kl, vs) \<in> set (groups p) \<Longrightarrow> (k, kl) \<in> set (pending p) \<or> (k = TODAY \<and> kl = [])"
proof (induction "length (pending p)" arbitrary: p rule: less_induct)
  case less
  show ?case
  proof (cases "parse_group p")
    case None
    with less.prems show ?thesis by (simp add: groups.simps [of p])
  next
    case (Some g)
    obtain key keyLit vs0 p' where "g = (key, keyLit, vs0, p')" by (cases g)
    with Some have pg: "parse_group p = Some (key, keyLit, vs0, p')" by simp
    note f = parse_group_pending [OF pg]
    from pg less.prems
    have "(k, kl, vs) = (key, keyLit, vs0) \<or> (k, kl, vs) \<in> set (groups p')"
      by (simp add: groups.simps [of p])
    then show ?thesis
    proof
      assume "(k, kl, vs) = (key, keyLit, vs0)"
      with f(4) show ?thesis by simp
    next
      assume "(k, kl, vs) \<in> set (groups p')"
      with f(2) have "(k, kl) \<in> set (pending p') \<or> (k = TODAY \<and> kl = [])"
        by (rule less.hyps)
      moreover have "set (pending p') \<subseteq> set (pending p)"
        using f(1) by (rule set_mono_suffix)
      ultimately show ?thesis by auto
    qed
  qed
qed

text \<open>Every case of the \<^verbatim>\<open>switch\<close> leaves the fields of the other keywords as they are.\<close>

lemma assign_frame:
  "(key \<noteq> YESTERDAY \<longrightarrow> Yesterday (assign key keyLit vs st) = Yesterday st) \<and>
   (key \<noteq> TODAY \<longrightarrow> Today (assign key keyLit vs st) = Today st) \<and>
   (key \<noteq> MEETINGS \<longrightarrow> Meetings (assign key keyLit vs st) = Meetings st) \<and>
   (key \<noteq> BLOCKERS \<longrightarrow> Blockers (assign key keyLit vs st) = Blockers st) \<and>
   (key \<noteq> LP \<longrightarrow> LP_fld (assign key keyLit vs st) = LP_fld st) \<and>
   (key \<noteq> JIRA \<longrightarrow> Jira (assign key keyLit vs st) = Jira st)"
  by (cases key) (simp_all add: assign_def Let_def split: prod.split)

text \<open>Every case of the \<^verbatim>\<open>switch\<close> replaces the whole field of its keyword.\<close>

lemma assign_own:
  "Yesterday (assign YESTERDAY keyLit vs st) =
     \<lparr>Key = keyLit, Val = splitAndTrimSpace vs, Valid = (splitAndTrimSpace vs \<noteq> [])\<rparr>"
  "Today (assign TODAY keyLit vs st) =
     \<lparr>Key = keyLit, Val = splitAndTrimSpace vs, Valid = (splitAndTrimSpace vs \<noteq> [])\<rparr>"
  "Meetings (assign MEETINGS keyLit vs st) =
     \<lparr>Key = keyLit, Val = splitAndTrimSpace vs, Valid = (splitAndTrimSpace vs \<noteq> [])\<rparr>"
  "Blockers (assign BLOCKERS keyLit vs st) =
     \<lparr>Key = keyLit, Val = splitAndTrimSpace vs, Valid = (splitAndTrimSpace vs \<noteq> [])\<rparr>"
  "LP_fld (assign LP keyLit vs st) =
     \<lparr>Key_b = keyLit, Val_b = fst (isPositive (splitAndTrimSpace vs)),
      Lit_b = splitAndTrimSpace vs, Valid_b = (snd (isPositive (splitAndTrimSpace vs)) = None)\<rparr>"
  "Jira (assign JIRA keyLit vs st) =
     \<lparr>Key_b = keyLit, Val_b = fst (isPositive (splitAndTrimSpace vs)),
      Lit_b = splitAndTrimSpace vs, Valid_b = (snd (isPositive (splitAndTrimSpace vs)) = None)\<rparr>"
  by (simp_all add: assign_def Let_def split: prod.split)

lemma assign_all_frame:
  assumes fr: "\<And>key keyLit vs st. key \<noteq> K \<Longrightarrow> g (assign key keyLit vs st) = g st"
  shows "K \<notin> fst ` set gs \<Longrightarrow> g (assign_all st gs) = g st"
proof (induction gs arbitrary: st)
  case Nil
  show ?case by simp
next
  case (Cons a gs)
  obtain key keyLit vs where a: "a = (key, keyLit, vs)" by (cases a)
  with Cons.prems have "key \<noteq> K" "K \<notin> fst ` set gs" by auto
  with Cons.IH [of "assign key keyLit vs st"] fr [of key keyLit vs st] a show ?case by simp
qed

lemma collect_values_prefix: "collect_values p acc = (vs, p') \<Longrightarrow> prefix acc vs"
proof (induction "length (pending p)" arbitrary: p acc rule: less_induct)
  case less
  obtain tok lit ws p1 where s: "scanIgnoreWhitespace p = (tok, lit, ws, p1)"
    by (cases "scanIgnoreWhitespace p")
  show ?case
  proof (cases "isKeyword tok \<or> tok = EOF")
    case True
    with s less.prems show ?thesis by (simp add: collect_values.simps [of p acc])
  next
    case False
    then have "tok \<noteq> EOF" by simp
    with s have lt: "length (pending p1) < length (pending p)"
      by (rule scanIgnoreWhitespace_consumes)
    show ?thesis
    proof (cases "tok = IDENT \<or> tok = COLON")
      case True
      with False s less.prems have "collect_values p1 (acc @ [ws, lit]) = (vs, p')"
        by (simp add: collect_values.simps [of p acc])
      with lt have "prefix (acc @ [ws, lit]) vs" by (rule less.hyps)
      then show ?thesis by (rule append_prefixD)
    next
      case F2: False
      with False s less.prems have "collect_values p1 acc = (vs, p')"
        by (simp add: collect_values.simps [of p acc])
      with lt show ?thesis by (rule less.hyps)
    qed
  qed
qed

lemma parse_group_default:
  assumes s: "scanIgnoreWhitespace p = (tok, lit, ws, p1)"
    and nk: "\<not> isKeyword tok" and ne: "tok \<noteq> EOF"
  shows "\<exists>vs p'. parse_group p = Some (TODAY, [], vs, p') \<and>
           (tok = IDENT \<longrightarrow> (\<exists>rest. vs = [] # lit # rest))"
proof -
  note f = scanIgnoreWhitespace_pending [OF s]
  obtain col cl cw p3 where s2: "scanIgnoreWhitespace (unscan p1) = (col, cl, cw, p3)"
    by (cases "scanIgnoreWhitespace (unscan p1)")
  obtain vs p' where c: "collect_values (if col \<noteq> COLON then unscan p3 else p3) [] = (vs, p')"
    by (cases "collect_values (if col \<noteq> COLON then unscan p3 else p3) []")
  have pg: "parse_group p = Some (TODAY, [], vs, p')"
    using s nk ne s2 c by (simp add: parse_group_def)
  have "\<exists>rest. vs = [] # lit # rest" if i: "tok = IDENT"
  proof -
    have "scan (unscan p1) = (IDENT, lit, (unscan p1)\<lparr>buf_n := 0\<rparr>)"
      using f i by (simp add: scan_def unscan_def)
    then have "scanIgnoreWhitespace (unscan p1) = (IDENT, lit, [], (unscan p1)\<lparr>buf_n := 0\<rparr>)"
      by (simp add: scanIgnoreWhitespace_def)
    with s2 have col: "col = IDENT" and p3: "p3 = (unscan p1)\<lparr>buf_n := 0\<rparr>" by simp_all
    have b: "buf_tok p3 = IDENT" "buf_lit p3 = lit" using f i p3 by (simp_all add: unscan_def)
    have "scan (unscan p3) = (IDENT, lit, (unscan p3)\<lparr>buf_n := 0\<rparr>)"
      using b by (simp add: scan_def unscan_def)
    then have s3: "scanIgnoreWhitespace (unscan p3) = (IDENT, lit, [], (unscan p3)\<lparr>buf_n := 0\<rparr>)"
      by (simp add: scanIgnoreWhitespace_def)
    from c col have "collect_values (unscan p3) [] = (vs, p')" by simp
    with s3 have "collect_values ((unscan p3)\<lparr>buf_n := 0\<rparr>) [[], lit] = (vs, p')"
      by (simp add: collect_values.simps [of "unscan p3" "[]"] isKeyword_def)
    then have "prefix [[], lit] vs" by (rule collect_values_prefix)
    then show ?thesis by (auto simp: prefix_def)
  qed
  with pg show ?thesis by blast
qed

lemma tokenize_concat:
  "eof \<notin> set (remaining s) \<Longrightarrow> concat (map snd (tokenize s)) = remaining s"
proof (induction "length (remaining s)" arbitrary: s rule: less_induct)
  case less
  obtain tok lit s' where S: "Scan s = (tok, lit, s')" by (cases "Scan s")
  note sp = Scan_split [OF S]
  from sp less.prems have r: "remaining s = lit @ remaining s'" by auto
  show ?case
  proof (cases "tok = EOF")
    case True
    with sp have "remaining s = [] \<or> (\<exists>cs. remaining s = eof # cs)" by blast
    moreover have "\<not> (\<exists>cs. remaining s = eof # cs)" using less.prems by auto
    ultimately have "remaining s = []" by blast
    with True S show ?thesis by (simp add: tokenize.simps [of s])
  next
    case False
    with S have "length (remaining s') < length (remaining s)" by (rule Scan_shorter)
    moreover have "eof \<notin> set (remaining s')" using r less.prems by auto
    ultimately have "concat (map snd (tokenize s')) = remaining s'" by (rule less.hyps)
    with False S r show ?thesis by (simp add: tokenize.simps [of s])
  qed
qed



lemma Parse_empty: "Parse (New []) = (Some Statement_zero, None)"
proof -
  have "Scan (NewScanner []) = (EOF, [], \<lparr>last_rune = None, remaining = []\<rparr>)"
    by (simp add: Scan_def read_def ReadRune_def NewScanner_def)
  then have "parse_group (New []) = None"
    by (simp add: parse_group_def scanIgnoreWhitespace_def scan_def New_def)
  then show ?thesis by (simp add: Parse_def Parse_loop.simps [of "New []"])
qed

lemma untouched_Yesterday:
  "YESTERDAY \<notin> fst ` set gs \<Longrightarrow> Yesterday (assign_all st gs) = Yesterday st"
  by (rule assign_all_frame [where g = Yesterday and K = YESTERDAY]) (simp_all add: assign_frame)

lemma untouched_Today:
  "TODAY \<notin> fst ` set gs \<Longrightarrow> Today (assign_all st gs) = Today st"
  by (rule assign_all_frame [where g = Today and K = TODAY]) (simp_all add: assign_frame)

lemma untouched_Meetings:
  "MEETINGS \<notin> fst ` set gs \<Longrightarrow> Meetings (assign_all st gs) = Meetings st"
  by (rule assign_all_frame [where g = Meetings and K = MEETINGS]) (simp_all add: assign_frame)

lemma untouched_Blockers:
  "BLOCKERS \<notin> fst ` set gs \<Longrightarrow> Blockers (assign_all st gs) = Blockers st"
  by (rule assign_all_frame [where g = Blockers and K = BLOCKERS]) (simp_all add: assign_frame)

lemma untouched_LP:
  "LP \<notin> fst ` set gs \<Longrightarrow> LP_fld (assign_all st gs) = LP_fld st"
  by (rule assign_all_frame [where g = LP_fld and K = LP]) (simp_all add: assign_frame)

lemma untouched_Jira:
  "JIRA \<notin> fst ` set gs \<Longrightarrow> Jira (assign_all st gs) = Jira st"
  by (rule assign_all_frame [where g = Jira and K = JIRA]) (simp_all add: assign_frame)

lemmas untouched =
  untouched_Yesterday untouched_Today untouched_Meetings untouched_Blockers untouched_LP
  untouched_Jira

lemma groups_absent:
  assumes "K \<notin> fst ` set (tokenize (NewScanner input))"
    and "K = TODAY \<longrightarrow> (\<forall>vs. (TODAY, [], vs) \<notin> set (groups (New input)))"
  shows "K \<notin> fst ` set (groups (New input))"
proof
  assume "K \<in> fst ` set (groups (New input))"
  then obtain kl vs where g: "(K, kl, vs) \<in> set (groups (New input))" by force
  from groups_keys [OF g]
  have "(K, kl) \<in> set (tokenize (NewScanner input)) \<or> (K = TODAY \<and> kl = [])"
    by (simp add: pending_New)
  then show False
  proof
    assume "(K, kl) \<in> set (tokenize (NewScanner input))"
    then have "K \<in> fst ` set (tokenize (NewScanner input))" by force
    with assms(1) show False by simp
  next
    assume "K = TODAY \<and> kl = []"
    with g assms(2) show False by simp
  qed
qed

section \<open>The indicator tables of the specification\<close>

text \<open>
  The specification words the two patterns of \<^verbatim>\<open>isPositive\<close> as tables of indicators that
  the value contains. These definitions follow its words and not the code; they are compared
  with the patterns of the code below. \<^verbatim>\<open>contains s w\<close>: the text \<^verbatim>\<open>w\<close> stands somewhere in
  \<^verbatim>\<open>s\<close>.
\<close>

definition contains :: "gostring \<Rightarrow> gostring \<Rightarrow> bool" where
  "contains s w = list_ex (prefix w) (suffixes s)"

text \<open>White space between the words of \<^verbatim>\<open>up to date\<close>: tab, line break, form feed, carriage
  return and space.\<close>

definition table_space :: "rune \<Rightarrow> bool" where
  "table_space c \<longleftrightarrow> c \<in> {0x09, 0x0A, 0x0C, 0x0D, 0x20}"

text \<open>
  The text starts with \<^verbatim>\<open>up\<close>, white space, \<^verbatim>\<open>to\<close>, white space, \<^verbatim>\<open>date\<close>, each white
  space of one rune or more.
\<close>

definition up_to_date_at :: "gostring \<Rightarrow> bool" where
  "up_to_date_at t \<longleftrightarrow>
     prefix (runes ''up'') t \<and>
     (let r1 = drop 2 t; r2 = dropWhile table_space r1
      in r1 \<noteq> r2 \<and> prefix (runes ''to'') r2 \<and>
         (let r3 = drop 2 r2; r4 = dropWhile table_space r3
          in r3 \<noteq> r4 \<and> prefix (runes ''date'') r4))"

definition contains_up_to_date :: "gostring \<Rightarrow> bool" where
  "contains_up_to_date s = list_ex up_to_date_at (suffixes s)"

text \<open>The negative indicators: \<^verbatim>\<open>no\<close>, \<^verbatim>\<open>off\<close>, \<^verbatim>\<open>updating\<close>, \<^verbatim>\<open>negative\<close>.\<close>

definition table_negative :: "gostring \<Rightarrow> bool" where
  "table_negative s \<longleftrightarrow>
     contains s (runes ''no'') \<or> contains s (runes ''off'') \<or>
     contains s (runes ''updating'') \<or> contains s (runes ''negative'')"

text \<open>
  The positive indicators: \<^verbatim>\<open>done\<close>, \<^verbatim>\<open>yes\<close>, \<^verbatim>\<open>up to date\<close>, \<^verbatim>\<open>ok\<close>, \<^verbatim>\<open>1\<close>,
  \<^verbatim>\<open>affirmative\<close>, \<^verbatim>\<open>current\<close>, \<^verbatim>\<open>updated\<close>.
\<close>

definition table_positive :: "gostring \<Rightarrow> bool" where
  "table_positive s \<longleftrightarrow>
     contains s (runes ''done'') \<or> contains s (runes ''yes'') \<or> contains_up_to_date s \<or>
     contains s (runes ''ok'') \<or> contains s (runes ''1'') \<or>
     contains s (runes ''affirmative'') \<or> contains s (runes ''current'') \<or>
     contains s (runes ''updated'')"

text \<open>
  The specification applies the tables without regard to letter case: the value is compared
  in lower case. Only the letters \<^verbatim>\<open>A\<close> to \<^verbatim>\<open>Z\<close> are folded here, which is all that the
  example below needs.
\<close>

definition fold_case :: "gostring \<Rightarrow> gostring" where
  "fold_case s = map (\<lambda>r. if 0x41 \<le> r \<and> r \<le> 0x5A then r + 0x20 else r) s"

definition table_negative_any_case :: "gostring \<Rightarrow> bool" where
  "table_negative_any_case s = table_negative (fold_case s)"

definition table_positive_any_case :: "gostring \<Rightarrow> bool" where
  "table_positive_any_case s = table_positive (fold_case s)"

section \<open>What the two patterns match\<close>

text \<open>The texts that an expression matches as a whole.\<close>

inductive_set star :: "gostring set \<Rightarrow> gostring set" for A :: "gostring set" where
  star_Nil: "[] \<in> star A"
| star_step: "u \<in> A \<Longrightarrow> v \<in> star A \<Longrightarrow> u @ v \<in> star A"

fun lang :: "regex \<Rightarrow> gostring set" where
  "lang Fail = {}"
| "lang Empty = {[]}"
| "lang (Lit c) = {[c]}"
| "lang Dot = {[c] | c. c \<noteq> 0x0A}"
| "lang PerlSpace = {[c] | c. c \<in> {0x09, 0x0A, 0x0C, 0x0D, 0x20}}"
| "lang (Cat r1 r2) = {u @ v | u v. u \<in> lang r1 \<and> v \<in> lang r2}"
| "lang (Alt r1 r2) = lang r1 \<union> lang r2"
| "lang (Star r) = star (lang r)"
| "lang (Plus r) = {u @ v | u v. u \<in> lang r \<and> v \<in> star (lang r)}"

lemma nullable_lang: "nullable r \<longleftrightarrow> [] \<in> lang r"
  by (induction r) (auto intro: star_Nil)

lemma star_Cons_elim:
  "x \<in> star A \<Longrightarrow> x = c # w \<Longrightarrow> \<exists>u v. w = u @ v \<and> c # u \<in> A \<and> v \<in> star A"
proof (induction arbitrary: w rule: star.induct)
  case star_Nil
  then show ?case by simp
next
  case (star_step u v)
  show ?case
  proof (cases u)
    case Nil
    with star_step show ?thesis by simp
  next
    case (Cons d u')
    with star_step.prems have "d = c" "w = u' @ v" by simp_all
    with Cons star_step.hyps show ?thesis by blast
  qed
qed

lemma star_Cons: "c # w \<in> star A \<longleftrightarrow> (\<exists>u v. w = u @ v \<and> c # u \<in> A \<and> v \<in> star A)"
proof
  assume "c # w \<in> star A"
  then show "\<exists>u v. w = u @ v \<and> c # u \<in> A \<and> v \<in> star A" by (rule star_Cons_elim) simp
next
  assume "\<exists>u v. w = u @ v \<and> c # u \<in> A \<and> v \<in> star A"
  then obtain u v where "w = u @ v" "c # u \<in> A" "v \<in> star A" by blast
  then show "c # w \<in> star A" using star_step [of "c # u" A v] by simp
qed

lemma deriv_lang: "w \<in> lang (deriv c r) \<longleftrightarrow> c # w \<in> lang r"
proof (induction r arbitrary: w)
  case (Cat r1 r2)
  have "c # w \<in> lang (Cat r1 r2) \<longleftrightarrow>
      (\<exists>u v. w = u @ v \<and> c # u \<in> lang r1 \<and> v \<in> lang r2) \<or> ([] \<in> lang r1 \<and> c # w \<in> lang r2)"
    by (auto simp: Cons_eq_append_conv)
  then show ?case using Cat by (auto simp: nullable_lang)
next
  case (Star r)
  then show ?case by (auto simp: star_Cons)
next
  case (Plus r)
  have "c # w \<in> lang (Plus r) \<longleftrightarrow>
      (\<exists>u v. w = u @ v \<and> c # u \<in> lang r \<and> v \<in> star (lang r)) \<or>
      ([] \<in> lang r \<and> c # w \<in> star (lang r))"
    by (auto simp: Cons_eq_append_conv)
  also have "\<dots> \<longleftrightarrow> (\<exists>u v. w = u @ v \<and> c # u \<in> lang r \<and> v \<in> star (lang r))"
    by (auto simp: star_Cons)
  finally show ?case using Plus by auto
qed auto

lemma matches_lang: "matches r w \<longleftrightarrow> w \<in> lang r"
  by (induction w arbitrary: r) (simp_all add: nullable_lang deriv_lang)

lemma Match_lang: "Match re b \<longleftrightarrow> (\<exists>u v w. b = u @ v @ w \<and> v \<in> lang re)"
  by (fastforce simp: Match_def list_ex_iff matches_lang suffix_def prefix_def)

lemma contains_iff: "contains b x \<longleftrightarrow> (\<exists>u w. b = u @ x @ w)"
  by (fastforce simp: contains_def list_ex_iff suffix_def prefix_def)

lemma lang_word: "lang (word cs) = {cs}"
  by (induction cs rule: word.induct) auto

text \<open>A pattern \<^verbatim>\<open>.*(...)\<close> or \<^verbatim>\<open>.*(...).*\<close> matches a part of the text exactly when the
  expression in the parentheses does.\<close>

lemma Match_dots_before: "Match (Cat (Star Dot) r) b \<longleftrightarrow> Match r b"
proof
  assume "Match (Cat (Star Dot) r) b"
  then obtain u v w a x where "b = u @ v @ w" "v = a @ x" "x \<in> lang r"
    by (auto simp: Match_lang)
  then have "b = (u @ a) @ x @ w \<and> x \<in> lang r" by simp
  then show "Match r b" unfolding Match_lang by blast
next
  assume "Match r b"
  then obtain u v w where "b = u @ v @ w" "v \<in> lang r" by (auto simp: Match_lang)
  moreover have "v \<in> lang (Cat (Star Dot) r)"
    using \<open>v \<in> lang r\<close> star_Nil [of "lang Dot"] by (simp del: lang.simps(4)) force
  ultimately show "Match (Cat (Star Dot) r) b" unfolding Match_lang by blast
qed

lemma Match_dots_after: "Match (Cat r (Star Dot)) b \<longleftrightarrow> Match r b"
proof
  assume "Match (Cat r (Star Dot)) b"
  then obtain u v w x c where "b = u @ v @ w" "v = x @ c" "x \<in> lang r"
    by (auto simp: Match_lang)
  then have "b = u @ x @ (c @ w) \<and> x \<in> lang r" by simp
  then show "Match r b" unfolding Match_lang by blast
next
  assume "Match r b"
  then obtain u v w where "b = u @ v @ w" "v \<in> lang r" by (auto simp: Match_lang)
  moreover have "v \<in> lang (Cat r (Star Dot))"
    using \<open>v \<in> lang r\<close> star_Nil [of "lang Dot"] by (simp del: lang.simps(4)) force
  ultimately show "Match (Cat r (Star Dot)) b" unfolding Match_lang by blast
qed

lemma Match_Alt: "Match (Alt r1 r2) b \<longleftrightarrow> Match r1 b \<or> Match r2 b"
  unfolding Match_lang lang.simps Un_iff by blast

lemma Match_word: "Match (word cs) b \<longleftrightarrow> contains b cs"
  unfolding Match_lang contains_iff lang_word by auto

text \<open>The runs of white space of \<^verbatim>\<open>\s+\<close>.\<close>

lemma star_space: "star (lang PerlSpace) = {s. \<forall>c \<in> set s. table_space c}"
proof (intro set_eqI iffI)
  fix s assume "s \<in> star (lang PerlSpace)"
  then show "s \<in> {s. \<forall>c \<in> set s. table_space c}"
    by (induction rule: star.induct) (auto simp: table_space_def)
next
  fix s assume "s \<in> {s. \<forall>c \<in> set s. table_space c}"
  then have "\<forall>c \<in> set s. table_space c" by simp
  then show "s \<in> star (lang PerlSpace)"
  proof (induction s)
    case Nil
    show ?case by (rule star_Nil)
  next
    case (Cons c s)
    then have "[c] \<in> lang PerlSpace" "s \<in> star (lang PerlSpace)"
      by (auto simp: table_space_def)
    then have "[c] @ s \<in> star (lang PerlSpace)" by (rule star_step)
    then show ?case by simp
  qed
qed

lemma lang_spaces:
  "lang (Plus PerlSpace) = {s. s \<noteq> [] \<and> (\<forall>c \<in> set s. table_space c)}"
proof -
  have "lang (Plus PerlSpace) =
      {u @ v | u v. u \<in> lang PerlSpace \<and> v \<in> {s. \<forall>c \<in> set s. table_space c}}"
    by (simp only: lang.simps(9) star_space)
  also have "\<dots> = {s. s \<noteq> [] \<and> (\<forall>c \<in> set s. table_space c)}"
  proof (intro set_eqI iffI)
    fix s assume "s \<in> {u @ v | u v. u \<in> lang PerlSpace \<and> v \<in> {s. \<forall>c \<in> set s. table_space c}}"
    then show "s \<in> {s. s \<noteq> [] \<and> (\<forall>c \<in> set s. table_space c)}"
      by (auto simp: table_space_def)
  next
    fix s assume "s \<in> {s. s \<noteq> [] \<and> (\<forall>c \<in> set s. table_space c)}"
    then obtain c s' where s: "s = c # s'" "table_space c" "\<forall>c \<in> set s'. table_space c"
      by (cases s) auto
    have "[c] \<in> lang PerlSpace" using s(2) by (simp add: table_space_def)
    moreover have "s' \<in> {s. \<forall>c \<in> set s. table_space c}" using s(3) by simp
    ultimately have "[c] @ s' \<in>
        {u @ v | u v. u \<in> lang PerlSpace \<and> v \<in> {s. \<forall>c \<in> set s. table_space c}}"
      by blast
    then show "s \<in> {u @ v | u v. u \<in> lang PerlSpace \<and> v \<in> {s. \<forall>c \<in> set s. table_space c}}"
      using s(1) by simp
  qed
  finally show ?thesis .
qed

text \<open>A run of white space before a word that does not start with white space.\<close>

lemma dropWhile_spaces:
  assumes "\<forall>c \<in> set s. table_space c" and "rest = [] \<or> \<not> table_space (hd rest)"
  shows "dropWhile table_space (s @ rest) = rest"
proof -
  have "dropWhile table_space (s @ rest) = dropWhile table_space rest"
    using assms(1) by (simp add: dropWhile_append2)
  also have "\<dots> = rest" using assms(2) by (cases rest) auto
  finally show ?thesis .
qed

lemma spaces_then:
  "(\<exists>s. s \<noteq> [] \<and> (\<forall>c \<in> set s. table_space c) \<and> r = s @ rest) \<longleftrightarrow>
     (r \<noteq> rest \<and> dropWhile table_space r = rest)"
  if "rest = [] \<or> \<not> table_space (hd rest)"
proof
  assume "\<exists>s. s \<noteq> [] \<and> (\<forall>c \<in> set s. table_space c) \<and> r = s @ rest"
  then obtain s where s: "s \<noteq> []" "\<forall>c \<in> set s. table_space c" "r = s @ rest" by blast
  have "dropWhile table_space (s @ rest) = rest" using s(2) that by (rule dropWhile_spaces)
  then have "dropWhile table_space r = rest" using s(3) by simp
  moreover have "r \<noteq> rest" using s by simp
  ultimately show "r \<noteq> rest \<and> dropWhile table_space r = rest" by simp
next
  assume a: "r \<noteq> rest \<and> dropWhile table_space r = rest"
  let ?s = "takeWhile table_space r"
  have "r = ?s @ rest" using a takeWhile_dropWhile_id [of table_space r] by simp
  moreover have "?s \<noteq> []" using a calculation by auto
  moreover have "\<forall>c \<in> set ?s. table_space c" by (auto dest: set_takeWhileD)
  ultimately show "\<exists>s. s \<noteq> [] \<and> (\<forall>c \<in> set s. table_space c) \<and> r = s @ rest" by blast
qed

lemma up_to_date_at_iff:
  "up_to_date_at t \<longleftrightarrow>
     (\<exists>s1 s2 w. s1 \<noteq> [] \<and> (\<forall>c \<in> set s1. table_space c) \<and>
        s2 \<noteq> [] \<and> (\<forall>c \<in> set s2. table_space c) \<and>
        t = runes ''up'' @ s1 @ runes ''to'' @ s2 @ runes ''date'' @ w)"
proof
  have len: "length (runes ''up'') = 2" "length (runes ''to'') = 2"
    by (simp_all add: runes_def)
  have nsp: "\<not> table_space (hd (runes ''to'' @ x))" "\<not> table_space (hd (runes ''date'' @ x))"
    for x
    by (simp_all add: runes_def table_space_def)
  {
    assume a: "up_to_date_at t"
    define r1 where "r1 = drop 2 t"
    define r2 where "r2 = dropWhile table_space r1"
    define r3 where "r3 = drop 2 r2"
    define r4 where "r4 = dropWhile table_space r3"
    from a have f: "prefix (runes ''up'') t" "r1 \<noteq> r2" "prefix (runes ''to'') r2"
        "r3 \<noteq> r4" "prefix (runes ''date'') r4"
      by (simp_all add: up_to_date_at_def Let_def r1_def r2_def r3_def r4_def)
    from f(1) have t: "t = runes ''up'' @ r1" using len by (auto simp: prefix_def r1_def)
    from f(3) have r2: "r2 = runes ''to'' @ r3" using len by (auto simp: prefix_def r3_def)
    from f(5) obtain w where r4: "r4 = runes ''date'' @ w" by (auto simp: prefix_def)
    have "r2 = [] \<or> \<not> table_space (hd r2)" using r2 nsp(1) [of r3] by simp
    from spaces_then [OF this, of r1] f(2) r2_def
    obtain s1 where s1: "s1 \<noteq> []" "\<forall>c \<in> set s1. table_space c" "r1 = s1 @ r2" by auto
    have "r4 = [] \<or> \<not> table_space (hd r4)" using r4 nsp(2) [of w] by simp
    from spaces_then [OF this, of r3] f(4) r4_def
    obtain s2 where s2: "s2 \<noteq> []" "\<forall>c \<in> set s2. table_space c" "r3 = s2 @ r4" by auto
    have "t = runes ''up'' @ s1 @ runes ''to'' @ s2 @ runes ''date'' @ w"
      using t s1(3) r2 s2(3) r4 by simp
    with s1 s2 show "\<exists>s1 s2 w. s1 \<noteq> [] \<and> (\<forall>c \<in> set s1. table_space c) \<and>
        s2 \<noteq> [] \<and> (\<forall>c \<in> set s2. table_space c) \<and>
        t = runes ''up'' @ s1 @ runes ''to'' @ s2 @ runes ''date'' @ w"
      by blast
  }
  {
    assume "\<exists>s1 s2 w. s1 \<noteq> [] \<and> (\<forall>c \<in> set s1. table_space c) \<and>
        s2 \<noteq> [] \<and> (\<forall>c \<in> set s2. table_space c) \<and>
        t = runes ''up'' @ s1 @ runes ''to'' @ s2 @ runes ''date'' @ w"
    then obtain s1 s2 w where s1: "s1 \<noteq> []" "\<forall>c \<in> set s1. table_space c"
      and s2: "s2 \<noteq> []" "\<forall>c \<in> set s2. table_space c"
      and t: "t = runes ''up'' @ s1 @ runes ''to'' @ s2 @ runes ''date'' @ w"
      by blast
    define r2 where "r2 = runes ''to'' @ s2 @ runes ''date'' @ w"
    define r4 where "r4 = runes ''date'' @ w"
    have p: "prefix (runes ''up'') t" using t by simp
    have r1: "drop 2 t = s1 @ r2" using t len by (simp add: r2_def)
    have "r2 = [] \<or> \<not> table_space (hd r2)" using nsp(1) by (simp add: r2_def)
    from spaces_then [OF this, of "drop 2 t"] s1 r1
    have d1: "drop 2 t \<noteq> r2" "dropWhile table_space (drop 2 t) = r2" by blast+
    have r3: "drop 2 r2 = s2 @ r4" using len by (simp add: r2_def r4_def)
    have "r4 = [] \<or> \<not> table_space (hd r4)" using nsp(2) by (simp add: r4_def)
    from spaces_then [OF this, of "drop 2 r2"] s2 r3
    have d2: "drop 2 r2 \<noteq> r4" "dropWhile table_space (drop 2 r2) = r4" by blast+
    have "prefix (runes ''to'') r2" "prefix (runes ''date'') r4" by (simp_all add: r2_def r4_def)
    with p d1 d2 show "up_to_date_at t" by (simp add: up_to_date_at_def Let_def)
  }
qed

lemma contains_up_to_date_iff:
  "contains_up_to_date b \<longleftrightarrow> (\<exists>u t. b = u @ t \<and> up_to_date_at t)"
  by (fastforce simp: contains_up_to_date_def list_ex_iff suffix_def)

lemma lang_up_to_date:
  "v \<in> lang (Cat (word (runes ''up'')) (Cat (Plus PerlSpace)
       (Cat (word (runes ''to'')) (Cat (Plus PerlSpace) (word (runes ''date'')))))) \<longleftrightarrow>
     (\<exists>s1 s2. s1 \<noteq> [] \<and> (\<forall>c \<in> set s1. table_space c) \<and>
        s2 \<noteq> [] \<and> (\<forall>c \<in> set s2. table_space c) \<and>
        v = runes ''up'' @ s1 @ runes ''to'' @ s2 @ runes ''date'')"
  by (simp only: lang.simps(6) lang_word lang_spaces) blast

lemma Match_up_to_date:
  "Match (Cat (word (runes ''up'')) (Cat (Plus PerlSpace)
       (Cat (word (runes ''to'')) (Cat (Plus PerlSpace) (word (runes ''date'')))))) b \<longleftrightarrow>
     contains_up_to_date b"
proof
  assume "Match (Cat (word (runes ''up'')) (Cat (Plus PerlSpace)
       (Cat (word (runes ''to'')) (Cat (Plus PerlSpace) (word (runes ''date'')))))) b"
  then obtain u v w s1 s2 where "b = u @ v @ w" and s: "s1 \<noteq> []" "\<forall>c \<in> set s1. table_space c"
      "s2 \<noteq> []" "\<forall>c \<in> set s2. table_space c"
    and "v = runes ''up'' @ s1 @ runes ''to'' @ s2 @ runes ''date''"
    unfolding Match_lang lang_up_to_date by blast
  then have "b = u @ (runes ''up'' @ s1 @ runes ''to'' @ s2 @ runes ''date'' @ w)" by simp
  moreover have "up_to_date_at (runes ''up'' @ s1 @ runes ''to'' @ s2 @ runes ''date'' @ w)"
    unfolding up_to_date_at_iff using s by blast
  ultimately show "contains_up_to_date b" unfolding contains_up_to_date_iff by blast
next
  assume "contains_up_to_date b"
  then obtain u t where b: "b = u @ t" and "up_to_date_at t"
    unfolding contains_up_to_date_iff by blast
  then obtain s1 s2 w where s: "s1 \<noteq> []" "\<forall>c \<in> set s1. table_space c"
      "s2 \<noteq> []" "\<forall>c \<in> set s2. table_space c"
    and t: "t = runes ''up'' @ s1 @ runes ''to'' @ s2 @ runes ''date'' @ w"
    unfolding up_to_date_at_iff by blast
  have "b = u @ (runes ''up'' @ s1 @ runes ''to'' @ s2 @ runes ''date'') @ w"
    using b t by simp
  moreover have "runes ''up'' @ s1 @ runes ''to'' @ s2 @ runes ''date'' \<in>
      lang (Cat (word (runes ''up'')) (Cat (Plus PerlSpace)
       (Cat (word (runes ''to'')) (Cat (Plus PerlSpace) (word (runes ''date''))))))"
    unfolding lang_up_to_date using s by blast
  ultimately show "Match (Cat (word (runes ''up'')) (Cat (Plus PerlSpace)
       (Cat (word (runes ''to'')) (Cat (Plus PerlSpace) (word (runes ''date'')))))) b"
    unfolding Match_lang by blast
qed

text \<open>The patterns of the code match a value exactly when it contains an indicator of the table,
  in the letter case of the table.\<close>

lemma Match_negative: "Match negative b \<longleftrightarrow> table_negative b"
  by (simp add: negative_def table_negative_def Match_dots_before Match_dots_after Match_Alt
      Match_word del: word.simps)

lemma Match_positive: "Match positive b \<longleftrightarrow> table_positive b"
  by (simp add: positive_def table_positive_def Match_dots_before Match_Alt Match_word
      Match_up_to_date del: word.simps)

section \<open>Runs on concrete inputs\<close>

text \<open>
  The inputs of the examples, evaluated once. \<^verbatim>\<open>[0x61, 0, 0x62]\<close> is the text \<^verbatim>\<open>a\<close>, NUL,
  \<^verbatim>\<open>b\<close>.
\<close>

lemma run_not_yet: "Match negative (runes ''not yet'') \<and> \<not> Match positive (runes ''not yet'')"
  by code_simp

lemma run_up_to_date:
  "Match positive (runes ''up to date'') \<and> \<not> Match negative (runes ''up to date'')"
  by code_simp

lemma run_YES:
  "table_positive_any_case (runes ''YES'') \<and> \<not> table_negative_any_case (runes ''YES'') \<and>
   \<not> table_positive (runes ''YES'') \<and> \<not> table_negative (runes ''YES'')"
  by code_simp

lemma run_LP_YES:
  "Parse (New (runes ''LP: YES'')) =
     (Some (Statement_zero\<lparr>LP_fld := \<lparr>Key_b = runes ''LP'', Val_b = True,
        Lit_b = runes ''YES'', Valid_b = False\<rparr>\<rparr>), None)"
  by code_simp

lemma run_tables:
  "table_positive (runes ''ok'') \<and> \<not> table_negative (runes ''ok'') \<and>
   \<not> table_positive (runes ''no'') \<and> table_negative (runes ''no'') \<and>
   table_positive (runes ''no, ok'') \<and> table_negative (runes ''no, ok'') \<and>
   \<not> table_positive [] \<and> \<not> table_negative [] \<and>
   table_positive (runes ''up  to date'') \<and> \<not> table_negative (runes ''up  to date'')"
  by code_simp

lemma run_Jira_not_yet:
  "Parse (New (runes ''Jira: not yet'')) =
     (Some (Statement_zero\<lparr>Jira := \<lparr>Key_b = runes ''Jira'', Val_b = False,
        Lit_b = runes ''not yet'', Valid_b = True\<rparr>\<rparr>), None)"
  by code_simp

lemma run_meetings_colon:
  "Parse (New (runes ''meetings: hello'')) =
     (Some (Statement_zero\<lparr>Meetings :=
        \<lparr>Key = runes ''meetings'', Val = runes ''hello'', Valid = True\<rparr>\<rparr>), None)"
  by code_simp

lemma run_meetings_line:
  "Parse (New (runes ''meetings'' @ 0x0A # runes ''hello'')) =
     (Some (Statement_zero\<lparr>Meetings :=
        \<lparr>Key = runes ''meetings'', Val = runes ''hello'', Valid = True\<rparr>\<rparr>), None)"
  by code_simp

lemma run_meetings_space:
  "Parse (New (runes ''meetings hello'')) =
     (Some (Statement_zero\<lparr>Today :=
        \<lparr>Key = [], Val = runes ''meetings hello'', Valid = True\<rparr>\<rparr>), None)"
  by code_simp

lemma run_tokenize_meetings_space:
  "tokenize (NewScanner (runes ''meetings hello'')) = [(IDENT, runes ''meetings hello'')]"
  by code_simp

lemma run_tokenize_NUL: "tokenize (NewScanner [0x61, 0, 0x62]) = [(IDENT, [0x61]), (IDENT, [0x62])]"
  by code_simp



lemma run_Scan_a: "Scan (NewScanner [0x61]) = (IDENT, [0x61], \<lparr>last_rune = None, remaining = []\<rparr>)"
  by code_simp

lemma run_parse_group_a:
  "parse_group (New [0x61]) =
     Some (TODAY, [], [[], [0x61]],
       \<lparr>scanner = \<lparr>last_rune = None, remaining = []\<rparr>, buf_tok = EOF, buf_lit = [], buf_n = 1\<rparr>)"
  by code_simp

lemma run_tokenize_lp:
  "tokenize (NewScanner (runes ''lp: ok'')) =
     [(LP, runes ''lp''), (COLON, [0x3A]), (WS, [0x20]), (IDENT, runes ''ok'')]"
  by code_simp

lemma run_groups_lp: "groups (New (runes ''lp: ok'')) = [(LP, runes ''lp'', [[0x20], runes ''ok''])]"
  by code_simp

lemma run_Parse_lp:
  "Parse (New (runes ''lp: ok'')) =
     (Some (Statement_zero\<lparr>LP_fld := \<lparr>Key_b = runes ''lp'', Val_b = True,
        Lit_b = runes ''ok'', Valid_b = True\<rparr>\<rparr>), None)"
  by code_simp

lemma run_groups_twice:
  "groups (New (runes ''today: a'' @ 0x0A # runes ''today: b'')) =
     [(TODAY, runes ''today'', [[0x20], [0x61]]), (TODAY, runes ''today'', [[0x20], [0x62]])]"
  by code_simp

lemma run_splitAndTrimSpace: "splitAndTrimSpace [[0x20], [0x62]] = [0x62]"
  by code_simp

lemma run_scan_working:
  "scanIgnoreWhitespace (New (runes ''working on something'')) =
     (IDENT, runes ''working on something'', [],
      \<lparr>scanner = \<lparr>last_rune = None, remaining = []\<rparr>, buf_tok = IDENT,
       buf_lit = runes ''working on something'', buf_n = 0\<rparr>)"
  by code_simp

lemma run_Parse_working:
  "Parse (New (runes ''working on something'')) =
     (Some (Statement_zero\<lparr>Today :=
        \<lparr>Key = [], Val = runes ''working on something'', Valid = True\<rparr>\<rparr>), None)"
  by code_simp

section \<open>The claims of the specification\<close>

subsection \<open>Key and value of a keyword with and without a colon\<close>

text \<open>
  Claim C1 says that \<^verbatim>\<open>meetings: hello\<close> and \<^verbatim>\<open>meetings hello\<close> both give a Meetings field
  with a key containing \<^verbatim>\<open>meetings\<close> and the value \<^verbatim>\<open>hello\<close>. That fails for the second
  input: \<^verbatim>\<open>scanIdent\<close> ends a word only at a line break, a colon or the end of the input,
  so \<^verbatim>\<open>meetings hello\<close> is one generic word. It is no keyword, the group defaults to
  Today with an empty key, and Meetings stays zero.
\<close>

theorem meetings_hello_is_one_word:
  "tokenize (NewScanner (runes ''meetings hello'')) = [(IDENT, runes ''meetings hello'')] \<and>
   Parse (New (runes ''meetings hello'')) =
     (Some (Statement_zero\<lparr>Today :=
        \<lparr>Key = [], Val = runes ''meetings hello'', Valid = True\<rparr>\<rparr>), None)"
  by (intro conjI run_tokenize_meetings_space run_meetings_space)

text \<open>
  Claim C1, amended: \<^verbatim>\<open>meetings: hello\<close>, and likewise \<^verbatim>\<open>meetings\<close> followed by a line
  break and \<^verbatim>\<open>hello\<close>, give the Meetings field with key \<^verbatim>\<open>meetings\<close>, value \<^verbatim>\<open>hello\<close> and
  \<^verbatim>\<open>Valid = true\<close>, the colon in neither of them, and every other field zero. The input
  \<^verbatim>\<open>meetings hello\<close> gives the Today field with an empty key, the value
  \<^verbatim>\<open>meetings hello\<close> and \<^verbatim>\<open>Valid = true\<close>, and every other field zero.
\<close>

theorem meetings_key_value_split:
  "Parse (New (runes ''meetings: hello'')) =
     (Some (Statement_zero\<lparr>Meetings :=
        \<lparr>Key = runes ''meetings'', Val = runes ''hello'', Valid = True\<rparr>\<rparr>), None) \<and>
   Parse (New (runes ''meetings'' @ 0x0A # runes ''hello'')) =
     (Some (Statement_zero\<lparr>Meetings :=
        \<lparr>Key = runes ''meetings'', Val = runes ''hello'', Valid = True\<rparr>\<rparr>), None) \<and>
   Parse (New (runes ''meetings hello'')) =
     (Some (Statement_zero\<lparr>Today :=
        \<lparr>Key = [], Val = runes ''meetings hello'', Valid = True\<rparr>\<rparr>), None)"
  by (intro conjI run_meetings_colon run_meetings_line run_meetings_space)

subsection \<open>The flags of \<^verbatim>\<open>up to date\<close> and \<^verbatim>\<open>not yet\<close>\<close>

text \<open>
  Claim C2 says that \<^verbatim>\<open>not yet\<close> matches neither pattern and is classified as true and
  invalid. That fails: \<^verbatim>\<open>not yet\<close> contains \<^verbatim>\<open>no\<close>, so the negative pattern matches it,
  and \<^verbatim>\<open>isPositive\<close> returns false without an error; the line \<^verbatim>\<open>Jira: not yet\<close> gives
  a Jira field with \<^verbatim>\<open>Val = false\<close> and \<^verbatim>\<open>Valid = true\<close>.
\<close>

theorem not_yet_is_negative:
  "Match negative (runes ''not yet'') \<and>
   isPositive (runes ''not yet'') = (False, None) \<and>
   Parse (New (runes ''Jira: not yet'')) =
     (Some (Statement_zero\<lparr>Jira := \<lparr>Key_b = runes ''Jira'', Val_b = False,
        Lit_b = runes ''not yet'', Valid_b = True\<rparr>\<rparr>), None)"
  using run_not_yet run_Jira_not_yet by (simp add: isPositive_def)

text \<open>
  Claim C2, amended: the value \<^verbatim>\<open>up to date\<close> is classified as true without an error
  (\<^verbatim>\<open>Val = true\<close>, \<^verbatim>\<open>Valid = true\<close>), and the value \<^verbatim>\<open>not yet\<close> is classified as false
  without an error (\<^verbatim>\<open>Val = false\<close>, \<^verbatim>\<open>Valid = true\<close>).
\<close>

theorem isPositive_examples:
  "isPositive (runes ''up to date'') = (True, None) \<and>
   isPositive (runes ''not yet'') = (False, None)"
  using run_up_to_date run_not_yet by (simp add: isPositive_def)

subsection \<open>The literals of the tokens and the input\<close>

text \<open>
  Claim C3 says that the literals of the tokens, put together, are the input, for every
  input. That fails for an input with a NUL: \<^verbatim>\<open>read\<close> returns the rune 0 for it, the loops
  of \<^verbatim>\<open>scanIdent\<close> and \<^verbatim>\<open>scanWhitespace\<close> take that for the end of the input and drop it.
  For \<^verbatim>\<open>a\<close>, NUL, \<^verbatim>\<open>b\<close> the literals give \<^verbatim>\<open>ab\<close>.
\<close>

theorem literals_lose_NUL:
  "concat (map snd (tokenize (NewScanner [0x61, 0, 0x62]))) = [0x61, 0x62] \<and>
   concat (map snd (tokenize (NewScanner [0x61, 0, 0x62]))) \<noteq> [0x61, 0, 0x62]"
  by (simp add: run_tokenize_NUL)

text \<open>
  Claim C3, amended: for every input without a NUL (the input taken as the runes that
  \<^verbatim>\<open>ReadRune\<close> delivers), the literals of the tokens that \<^verbatim>\<open>Scan\<close> returns up to the
  end-of-input token, put together in order, are the input.
\<close>

theorem literals_reproduce_input:
  "eof \<notin> set input \<Longrightarrow> concat (map snd (tokenize (NewScanner input))) = input"
  using tokenize_concat [of "NewScanner input"] by (simp add: NewScanner_def)

theorem literals_reproduce_input_witness:
  "eof \<notin> set (runes ''a: b'') \<and>
   concat (map snd (tokenize (NewScanner (runes ''a: b'')))) = runes ''a: b''"
  using literals_reproduce_input [of "runes ''a: b''"] by (simp add: runes_def eof_def)

subsection \<open>\<^verbatim>\<open>Parse\<close> returns no error\<close>

text \<open>
  Claim C4: for every input \<^verbatim>\<open>Parse\<close> returns a statement and no error; for the empty input
  it is the zero statement.
\<close>

theorem Parse_returns_statement:
  "(\<exists>stmt. Parse (New input) = (Some stmt, None)) \<and>
   Parse (New []) = (Some Statement_zero, None)"
  by (simp add: Parse_def Parse_empty [unfolded Parse_def])

subsection \<open>Fields that the input does not mention\<close>

text \<open>
  Claim C5: a field whose keyword is the kind of no token of the input is zero in the
  statement that \<^verbatim>\<open>Parse\<close> returns; for Today this needs in addition that no group
  defaulted to Today (a group with the key \<^verbatim>\<open>TODAY\<close> and an empty label). And the
  \<^verbatim>\<open>switch\<close> writes no field but the one of the group's keyword.
\<close>

theorem absent_keywords_leave_fields_zero:
  assumes "Parse (New input) = (Some stmt, err)"
  shows
    "(YESTERDAY \<notin> fst ` set (tokenize (NewScanner input)) \<longrightarrow>
        Yesterday stmt = StringField_zero) \<and>
     (MEETINGS \<notin> fst ` set (tokenize (NewScanner input)) \<longrightarrow>
        Meetings stmt = StringField_zero) \<and>
     (BLOCKERS \<notin> fst ` set (tokenize (NewScanner input)) \<longrightarrow>
        Blockers stmt = StringField_zero) \<and>
     (LP \<notin> fst ` set (tokenize (NewScanner input)) \<longrightarrow> LP_fld stmt = BoolField_zero) \<and>
     (JIRA \<notin> fst ` set (tokenize (NewScanner input)) \<longrightarrow> Jira stmt = BoolField_zero) \<and>
     (TODAY \<notin> fst ` set (tokenize (NewScanner input)) \<and>
      (\<forall>vs. (TODAY, [], vs) \<notin> set (groups (New input))) \<longrightarrow>
        Today stmt = StringField_zero) \<and>
     (key \<noteq> YESTERDAY \<longrightarrow> Yesterday (assign key keyLit vs st) = Yesterday st) \<and>
     (key \<noteq> TODAY \<longrightarrow> Today (assign key keyLit vs st) = Today st) \<and>
     (key \<noteq> MEETINGS \<longrightarrow> Meetings (assign key keyLit vs st) = Meetings st) \<and>
     (key \<noteq> BLOCKERS \<longrightarrow> Blockers (assign key keyLit vs st) = Blockers st) \<and>
     (key \<noteq> LP \<longrightarrow> LP_fld (assign key keyLit vs st) = LP_fld st) \<and>
     (key \<noteq> JIRA \<longrightarrow> Jira (assign key keyLit vs st) = Jira st)"
proof -
  have stmt: "stmt = assign_all Statement_zero (groups (New input))"
    using assms by (simp add: Parse_def Parse_loop_groups)
  have a: "K \<notin> fst ` set (groups (New input))"
    if "K \<notin> fst ` set (tokenize (NewScanner input))" and "K \<noteq> TODAY" for K
    using that by (intro groups_absent) simp_all
  have t: "TODAY \<notin> fst ` set (groups (New input))"
    if "TODAY \<notin> fst ` set (tokenize (NewScanner input)) \<and>
        (\<forall>vs. (TODAY, [], vs) \<notin> set (groups (New input)))"
    using that by (intro groups_absent) simp_all
  have "YESTERDAY \<notin> fst ` set (tokenize (NewScanner input)) \<longrightarrow>
      Yesterday stmt = StringField_zero"
    by (simp add: stmt a untouched Statement_zero_def)
  moreover have "MEETINGS \<notin> fst ` set (tokenize (NewScanner input)) \<longrightarrow>
      Meetings stmt = StringField_zero"
    by (simp add: stmt a untouched Statement_zero_def)
  moreover have "BLOCKERS \<notin> fst ` set (tokenize (NewScanner input)) \<longrightarrow>
      Blockers stmt = StringField_zero"
    by (simp add: stmt a untouched Statement_zero_def)
  moreover have "LP \<notin> fst ` set (tokenize (NewScanner input)) \<longrightarrow>
      LP_fld stmt = BoolField_zero"
    by (simp add: stmt a untouched Statement_zero_def)
  moreover have "JIRA \<notin> fst ` set (tokenize (NewScanner input)) \<longrightarrow>
      Jira stmt = BoolField_zero"
    by (simp add: stmt a untouched Statement_zero_def)
  moreover have "TODAY \<notin> fst ` set (tokenize (NewScanner input)) \<and>
      (\<forall>vs. (TODAY, [], vs) \<notin> set (groups (New input))) \<longrightarrow>
        Today stmt = StringField_zero"
    using t by (simp add: stmt untouched Statement_zero_def)
  ultimately show ?thesis using assign_frame [of key keyLit vs st] by simp
qed

theorem absent_keywords_leave_fields_zero_witness:
  "Parse (New (runes ''lp: ok'')) =
     (Some (Statement_zero\<lparr>LP_fld := \<lparr>Key_b = runes ''lp'', Val_b = True,
        Lit_b = runes ''ok'', Valid_b = True\<rparr>\<rparr>), None) \<and>
   YESTERDAY \<notin> fst ` set (tokenize (NewScanner (runes ''lp: ok''))) \<and>
   TODAY \<notin> fst ` set (tokenize (NewScanner (runes ''lp: ok''))) \<and>
   (\<forall>vs. (TODAY, [], vs) \<notin> set (groups (New (runes ''lp: ok'')))) \<and>
   Yesterday (Statement_zero\<lparr>LP_fld := \<lparr>Key_b = runes ''lp'', Val_b = True,
        Lit_b = runes ''ok'', Valid_b = True\<rparr>\<rparr>) = StringField_zero \<and>
   Today (Statement_zero\<lparr>LP_fld := \<lparr>Key_b = runes ''lp'', Val_b = True,
        Lit_b = runes ''ok'', Valid_b = True\<rparr>\<rparr>) = StringField_zero"
  using absent_keywords_leave_fields_zero [OF run_Parse_lp]
  by (simp add: run_Parse_lp run_tokenize_lp run_groups_lp)

subsection \<open>Termination\<close>

text \<open>
  Claim C6: \<^verbatim>\<open>Parse\<close> terminates on every input. A call of \<^verbatim>\<open>Scan\<close> that does not return
  the end-of-input token leaves the scanner fewer runes than it had; a round of the loop of
  \<^verbatim>\<open>Parse\<close> leaves the parser fewer tokens than it had; so there are at most as many rounds
  as tokens and at most as many tokens as runes in the input, and the statement returned is
  the one that these rounds build.
\<close>

theorem Parse_terminates:
  "(Scan s = (tok, lit, s') \<longrightarrow> tok = EOF \<or> length (remaining s') < length (remaining s)) \<and>
   (parse_group p = Some (key, keyLit, vs, p') \<longrightarrow> length (pending p') < length (pending p)) \<and>
   length (groups (New input)) \<le> length (tokenize (NewScanner input)) \<and>
   length (tokenize (NewScanner input)) \<le> length input \<and>
   Parse (New input) = (Some (assign_all Statement_zero (groups (New input))), None)"
proof (intro conjI impI)
  assume "Scan s = (tok, lit, s')"
  then show "tok = EOF \<or> length (remaining s') < length (remaining s)"
    using Scan_shorter [of s tok lit s'] by blast
next
  assume "parse_group p = Some (key, keyLit, vs, p')"
  then show "length (pending p') < length (pending p)" by (rule parse_group_pending)
next
  show "length (groups (New input)) \<le> length (tokenize (NewScanner input))"
    using groups_length [of "New input"] by (simp add: pending_New)
next
  show "length (tokenize (NewScanner input)) \<le> length input"
    using tokenize_length [of "NewScanner input"] by (simp add: NewScanner_def)
next
  show "Parse (New input) = (Some (assign_all Statement_zero (groups (New input))), None)"
    by (simp add: Parse_def Parse_loop_groups)
qed

theorem Parse_terminates_witness:
  "Scan (NewScanner [0x61]) = (IDENT, [0x61], \<lparr>last_rune = None, remaining = []\<rparr>) \<and>
   length (remaining \<lparr>last_rune = None, remaining = []\<rparr>) < length (remaining (NewScanner [0x61])) \<and>
   parse_group (New [0x61]) =
     Some (TODAY, [], [[], [0x61]],
       \<lparr>scanner = \<lparr>last_rune = None, remaining = []\<rparr>, buf_tok = EOF, buf_lit = [], buf_n = 1\<rparr>) \<and>
   length (pending \<lparr>scanner = \<lparr>last_rune = None, remaining = []\<rparr>, buf_tok = EOF,
       buf_lit = [], buf_n = 1\<rparr>) < length (pending (New [0x61])) \<and>
   length (groups (New [0x61])) \<le> length (tokenize (NewScanner [0x61])) \<and>
   length (tokenize (NewScanner [0x61])) \<le> 1"
  using Parse_terminates [where s = "NewScanner [0x61]" and tok = IDENT and lit = "[0x61]"
      and s' = "\<lparr>last_rune = None, remaining = []\<rparr>" and p = "New [0x61]" and key = TODAY
      and keyLit = "[]" and vs = "[[], [0x61]]"
      and p' = "\<lparr>scanner = \<lparr>last_rune = None, remaining = []\<rparr>, buf_tok = EOF,
         buf_lit = [], buf_n = 1\<rparr>"
      and input = "[0x61]"]
    run_Scan_a run_parse_group_a
  by simp

subsection \<open>The four cases of \<^verbatim>\<open>isPositive\<close>\<close>

text \<open>
  Claim C7 takes the two tables as the specification words them, applied without regard to
  letter case. That fails: the patterns of \<^verbatim>\<open>isPositive\<close> are matched in the letter case in
  which they are written. The value \<^verbatim>\<open>YES\<close> matches only the positive table when case is
  disregarded, so the claim asks for true and valid; \<^verbatim>\<open>isPositive\<close> matches neither pattern
  and returns true with the error \<^verbatim>\<open>unclear\<close>, and the line \<^verbatim>\<open>LP: YES\<close> gives an LP field
  with \<^verbatim>\<open>Valid = false\<close>.
\<close>

theorem YES_is_unclear:
  "table_positive_any_case (runes ''YES'') \<and> \<not> table_negative_any_case (runes ''YES'') \<and>
   isPositive (runes ''YES'') = (True, Some (errors_New ''unclear'')) \<and>
   Parse (New (runes ''LP: YES'')) =
     (Some (Statement_zero\<lparr>LP_fld := \<lparr>Key_b = runes ''LP'', Val_b = True,
        Lit_b = runes ''YES'', Valid_b = False\<rparr>\<rparr>), None)"
  using run_YES run_LP_YES by (simp add: isPositive_def Match_negative Match_positive)

text \<open>
  Claim C7, amended: with the two tables applied in the letter case in which they are written
  (a value matches a table when it contains one of its indicators as written, the words of
  \<^verbatim>\<open>up to date\<close> separated by one or more runes of white space), a value that only the
  positive table matches is true and valid, one that only the negative table matches is false
  and valid, one that both match is true with the error \<^verbatim>\<open>ambiguous\<close>, one that neither
  matches is true with the error \<^verbatim>\<open>unclear\<close>. There is no error, and the \<^verbatim>\<open>Valid\<close> bit of
  the LP or Jira field is set, exactly when one of the two tables matches and the other does
  not.
\<close>

theorem isPositive_follows_tables:
  "isPositive s =
     (if table_positive s \<and> \<not> table_negative s then (True, None)
      else if table_negative s \<and> \<not> table_positive s then (False, None)
      else if table_positive s \<and> table_negative s then (True, Some (errors_New ''ambiguous''))
      else (True, Some (errors_New ''unclear''))) \<and>
   (snd (isPositive s) = None) = (table_positive s \<noteq> table_negative s) \<and>
   Valid_b (LP_fld (assign LP keyLit vs stmt)) =
     (table_positive (splitAndTrimSpace vs) \<noteq> table_negative (splitAndTrimSpace vs)) \<and>
   Valid_b (Jira (assign JIRA keyLit vs stmt)) =
     (table_positive (splitAndTrimSpace vs) \<noteq> table_negative (splitAndTrimSpace vs))"
  by (auto simp: isPositive_def Let_def assign_own Match_negative Match_positive)

theorem isPositive_follows_tables_witness:
  "isPositive (runes ''ok'') = (True, None) \<and>
   isPositive (runes ''no'') = (False, None) \<and>
   isPositive (runes ''no, ok'') = (True, Some (errors_New ''ambiguous'')) \<and>
   isPositive [] = (True, Some (errors_New ''unclear'')) \<and>
   isPositive (runes ''up  to date'') = (True, None)"
  using isPositive_follows_tables [of "runes ''ok''"] isPositive_follows_tables [of "runes ''no''"]
    isPositive_follows_tables [of "runes ''no, ok''"] isPositive_follows_tables [of "[]"]
    isPositive_follows_tables [of "runes ''up  to date''"]
    run_tables
  by simp

subsection \<open>A keyword that comes again\<close>

text \<open>
  Claim C8: when a keyword heads several groups of the input, its field in the statement
  that \<^verbatim>\<open>Parse\<close> returns is what the last of these groups alone gives: the label of that
  group as the key and its value, with nothing of the earlier groups.
\<close>

theorem last_group_wins:
  assumes "Parse (New input) = (Some stmt, err)"
    and "groups (New input) = earlier @ (key, keyLit, vs) # later"
    and "key \<notin> fst ` set later"
  shows
    "(key = YESTERDAY \<longrightarrow> Yesterday stmt =
        \<lparr>Key = keyLit, Val = splitAndTrimSpace vs, Valid = (splitAndTrimSpace vs \<noteq> [])\<rparr>) \<and>
     (key = TODAY \<longrightarrow> Today stmt =
        \<lparr>Key = keyLit, Val = splitAndTrimSpace vs, Valid = (splitAndTrimSpace vs \<noteq> [])\<rparr>) \<and>
     (key = MEETINGS \<longrightarrow> Meetings stmt =
        \<lparr>Key = keyLit, Val = splitAndTrimSpace vs, Valid = (splitAndTrimSpace vs \<noteq> [])\<rparr>) \<and>
     (key = BLOCKERS \<longrightarrow> Blockers stmt =
        \<lparr>Key = keyLit, Val = splitAndTrimSpace vs, Valid = (splitAndTrimSpace vs \<noteq> [])\<rparr>) \<and>
     (key = LP \<longrightarrow> LP_fld stmt =
        \<lparr>Key_b = keyLit, Val_b = fst (isPositive (splitAndTrimSpace vs)),
         Lit_b = splitAndTrimSpace vs,
         Valid_b = (snd (isPositive (splitAndTrimSpace vs)) = None)\<rparr>) \<and>
     (key = JIRA \<longrightarrow> Jira stmt =
        \<lparr>Key_b = keyLit, Val_b = fst (isPositive (splitAndTrimSpace vs)),
         Lit_b = splitAndTrimSpace vs,
         Valid_b = (snd (isPositive (splitAndTrimSpace vs)) = None)\<rparr>)"
proof -
  have "stmt = assign_all Statement_zero (groups (New input))"
    using assms(1) by (simp add: Parse_def Parse_loop_groups)
  then have stmt: "stmt = assign_all (assign key keyLit vs (assign_all Statement_zero earlier)) later"
    by (simp add: assms(2))
  show ?thesis using assms(3) by (auto simp: stmt untouched assign_own)
qed

theorem last_group_wins_witness:
  "groups (New (runes ''today: a'' @ 0x0A # runes ''today: b'')) =
     [(TODAY, runes ''today'', [[0x20], [0x61]])] @ (TODAY, runes ''today'', [[0x20], [0x62]]) # [] \<and>
   TODAY \<notin> fst ` set ([] :: (Token \<times> gostring \<times> gostring list) list) \<and>
   Today (Parse_loop (New (runes ''today: a'' @ 0x0A # runes ''today: b'')) Statement_zero) =
     \<lparr>Key = runes ''today'', Val = [0x62], Valid = True\<rparr>"
  using last_group_wins [where input = "runes ''today: a'' @ 0x0A # runes ''today: b''"
      and stmt = "Parse_loop (New (runes ''today: a'' @ 0x0A # runes ''today: b'')) Statement_zero"
      and err = None and earlier = "[(TODAY, runes ''today'', [[0x20], [0x61]])]"
      and key = TODAY and keyLit = "runes ''today''" and vs = "[[0x20], [0x62]]" and later = "[]"]
    run_groups_twice run_splitAndTrimSpace
  by (simp add: Parse_def)

subsection \<open>Text without a keyword\<close>

text \<open>
  Claim C9: when the first token of the input that is not white space is neither a keyword
  nor the end of the input, the round of the loop works on a group with the key \<^verbatim>\<open>TODAY\<close>
  and an empty label, and the token is pushed back: a generic word is read again as the first
  piece of the value. The input \<^verbatim>\<open>working on something\<close> gives the Today field with an empty
  key, the value \<^verbatim>\<open>working on something\<close> and \<^verbatim>\<open>Valid = true\<close>, and every other field zero.
\<close>

theorem keywordless_text_is_today:
  "(scanIgnoreWhitespace p = (tok, lit, ws, q) \<and> \<not> isKeyword tok \<and> tok \<noteq> EOF \<longrightarrow>
      (\<exists>vs p'. parse_group p = Some (TODAY, [], vs, p') \<and>
         Parse_loop p stmt = Parse_loop p' (assign TODAY [] vs stmt) \<and>
         (tok = IDENT \<longrightarrow> (\<exists>rest. vs = [] # lit # rest)))) \<and>
   Parse (New (runes ''working on something'')) =
     (Some (Statement_zero\<lparr>Today :=
        \<lparr>Key = [], Val = runes ''working on something'', Valid = True\<rparr>\<rparr>), None)"
proof (intro conjI impI)
  assume a: "scanIgnoreWhitespace p = (tok, lit, ws, q) \<and> \<not> isKeyword tok \<and> tok \<noteq> EOF"
  then obtain vs p' where pg: "parse_group p = Some (TODAY, [], vs, p')"
    and r: "tok = IDENT \<longrightarrow> (\<exists>rest. vs = [] # lit # rest)"
    using parse_group_default [of p tok lit ws q] by blast
  from pg have "Parse_loop p stmt = Parse_loop p' (assign TODAY [] vs stmt)"
    by (simp add: Parse_loop.simps [of p stmt])
  with pg r show "\<exists>vs p'. parse_group p = Some (TODAY, [], vs, p') \<and>
         Parse_loop p stmt = Parse_loop p' (assign TODAY [] vs stmt) \<and>
         (tok = IDENT \<longrightarrow> (\<exists>rest. vs = [] # lit # rest))"
    by blast
next
  show "Parse (New (runes ''working on something'')) =
     (Some (Statement_zero\<lparr>Today :=
        \<lparr>Key = [], Val = runes ''working on something'', Valid = True\<rparr>\<rparr>), None)"
    by (rule run_Parse_working)
qed

theorem keywordless_text_is_today_witness:
  "scanIgnoreWhitespace (New (runes ''working on something'')) =
     (IDENT, runes ''working on something'', [],
      \<lparr>scanner = \<lparr>last_rune = None, remaining = []\<rparr>, buf_tok = IDENT,
       buf_lit = runes ''working on something'', buf_n = 0\<rparr>) \<and>
   \<not> isKeyword IDENT \<and>
   (\<exists>vs p'. parse_group (New (runes ''working on something'')) = Some (TODAY, [], vs, p') \<and>
      Parse_loop (New (runes ''working on something'')) Statement_zero =
        Parse_loop p' (assign TODAY [] vs Statement_zero) \<and>
      (\<exists>rest. vs = [] # runes ''working on something'' # rest))"
  using keywordless_text_is_today [where p = "New (runes ''working on something'')"
      and tok = IDENT and lit = "runes ''working on something''" and ws = "[]"
      and q = "\<lparr>scanner = \<lparr>last_rune = None, remaining = []\<rparr>, buf_tok = IDENT,
         buf_lit = runes ''working on something'', buf_n = 0\<rparr>"
      and stmt = Statement_zero]
    run_scan_working
  by (simp add: isKeyword_def)

subsection \<open>A NUL in the input\<close>




end
